theory Spec2Isabelle
  imports
    Main
    "HOL-Library.Multiset"
    "HOL-Library.Char_ord"
    "HOL-Library.List_Lexorder"
    "HOL-Library.Product_Lexorder"
begin

section \<open>JavaScript values\<close>

text \<open>
  The parsers of \<^verbatim>\<open>scan-locks.js\<close> receive what \<^verbatim>\<open>JSON.parse\<close> returns (or a raw
  text). A value is \<^verbatim>\<open>undefined\<close>, \<^verbatim>\<open>null\<close>, a boolean, a number, a string, an array
  or a plain object.

  \<^item> A string is a list of code units; a \<^typ>\<open>char\<close> stands for a code unit below 256.
  \<^item> The program never computes with a number: it tests its truthiness and converts it
    to a string. A number is therefore represented by the text that JavaScript's
    number-to-string conversion gives it (\<^verbatim>\<open>0\<close> and \<^verbatim>\<open>-0\<close> both give \<^verbatim>\<open>"0"\<close>).
  \<^item> An object is the list of its own properties in the order in which
    \<^verbatim>\<open>Object.keys\<close> enumerates them. The objects of JavaScript have distinct keys;
    a statement that depends on it assumes it.
\<close>

datatype jsval =
    JUndefined
  | JNull
  | JBool bool
  | JNum string
  | JStr string
  | JArr "jsval list"
  | JObj "(string \<times> jsval) list"

datatype error = TypeError

definition and_then :: "error + 'a \<Rightarrow> ('a \<Rightarrow> error + 'b) \<Rightarrow> error + 'b" where
  "and_then m f = (case m of Inl e \<Rightarrow> Inl e | Inr x \<Rightarrow> f x)"

text \<open>Truthiness (\<^verbatim>\<open>ToBoolean\<close>), \<^verbatim>\<open>x || y\<close>, \<^verbatim>\<open>typeof x === 'object'\<close>, \<^verbatim>\<open>x === true\<close>.\<close>

fun truthy :: "jsval \<Rightarrow> bool" where
  "truthy JUndefined = False"
| "truthy JNull = False"
| "truthy (JBool b) = b"
| "truthy (JNum s) = (s \<noteq> ''0'' \<and> s \<noteq> ''NaN'')"
| "truthy (JStr s) = (s \<noteq> [])"
| "truthy (JArr xs) = True"
| "truthy (JObj kvs) = True"

definition js_or :: "jsval \<Rightarrow> jsval \<Rightarrow> jsval" where
  "js_or a b = (if truthy a then a else b)"

fun typeof_object :: "jsval \<Rightarrow> bool" where
  "typeof_object JNull = True"
| "typeof_object (JArr xs) = True"
| "typeof_object (JObj kvs) = True"
| "typeof_object _ = False"

fun nullish :: "jsval \<Rightarrow> bool" where
  "nullish JUndefined = True"
| "nullish JNull = True"
| "nullish _ = False"

definition is_true :: "jsval \<Rightarrow> bool" where
  "is_true v = (v = JBool True)"

text \<open>Array indices as property names: the decimal numerals without leading zero.\<close>

definition digit_char :: "nat \<Rightarrow> char" where
  "digit_char d = char_of (48 + d)"

fun show_nat :: "nat \<Rightarrow> string" where
  "show_nat n = (if n < 10 then [digit_char n] else show_nat (n div 10) @ [digit_char (n mod 10)])"

declare show_nat.simps [simp del]

definition index_entries :: "'a list \<Rightarrow> (string \<times> 'a) list" where
  "index_entries xs = zip (map show_nat [0..<length xs]) xs"

text \<open>
  \<^verbatim>\<open>Object.entries(v)\<close> and \<^verbatim>\<open>Object.keys(v)\<close>: a \<^verbatim>\<open>TypeError\<close> on \<^verbatim>\<open>undefined\<close> and
  \<^verbatim>\<open>null\<close>, nothing for a boolean or a number, the indexed elements of an array (arrays
  decoded from JSON have no holes) and the indexed one-unit strings of a string.
\<close>

fun entries :: "jsval \<Rightarrow> error + (string \<times> jsval) list" where
  "entries JUndefined = Inl TypeError"
| "entries JNull = Inl TypeError"
| "entries (JBool b) = Inr []"
| "entries (JNum s) = Inr []"
| "entries (JStr s) = Inr (index_entries (map (\<lambda>c. JStr [c]) s))"
| "entries (JArr xs) = Inr (index_entries xs)"
| "entries (JObj kvs) = Inr kvs"

definition keys :: "jsval \<Rightarrow> error + string list" where
  "keys v = and_then (entries v) (\<lambda>es. Inr (map fst es))"

text \<open>
  Property read \<^verbatim>\<open>v[k]\<close>: a \<^verbatim>\<open>TypeError\<close> on \<^verbatim>\<open>undefined\<close> and \<^verbatim>\<open>null\<close>; otherwise the own
  property, or \<^verbatim>\<open>undefined\<close>. The program reads the names \<^verbatim>\<open>packages\<close>,
  \<^verbatim>\<open>dependencies\<close>, \<^verbatim>\<open>devDependencies\<close>, \<^verbatim>\<open>optionalDependencies\<close>, \<^verbatim>\<open>name\<close>, \<^verbatim>\<open>version\<close>,
  \<^verbatim>\<open>dev\<close>, \<^verbatim>\<open>optional\<close> and the keys that \<^verbatim>\<open>Object.keys\<close> returned; none of them is
  inherited from a prototype.
\<close>

definition own :: "(string \<times> jsval) list \<Rightarrow> string \<Rightarrow> jsval" where
  "own kvs k = (case map_of kvs k of Some v \<Rightarrow> v | None \<Rightarrow> JUndefined)"

fun get :: "jsval \<Rightarrow> string \<Rightarrow> error + jsval" where
  "get JUndefined k = Inl TypeError"
| "get JNull k = Inl TypeError"
| "get (JBool b) k = Inr JUndefined"
| "get (JNum s) k = Inr JUndefined"
| "get (JStr s) k =
     Inr (if k = ''length'' then JNum (show_nat (length s))
          else own (index_entries (map (\<lambda>c. JStr [c]) s)) k)"
| "get (JArr xs) k =
     Inr (if k = ''length'' then JNum (show_nat (length xs)) else own (index_entries xs) k)"
| "get (JObj kvs) k = Inr (own kvs k)"

text \<open>
  \<^verbatim>\<open>String(v)\<close> and the conversion inside a template literal. An array joins its
  elements with commas, \<^verbatim>\<open>null\<close> and \<^verbatim>\<open>undefined\<close> elements giving the empty text. A
  plain object gives \<^verbatim>\<open>[object Object]\<close> through \<^verbatim>\<open>Object.prototype.toString\<close>; when it
  has an own property \<^verbatim>\<open>toString\<close> (which, decoded from JSON, is never callable) the
  conversion finds no primitive value and throws a \<^verbatim>\<open>TypeError\<close>.
\<close>

fun sequence :: "(error + 'a) list \<Rightarrow> error + 'a list" where
  "sequence [] = Inr []"
| "sequence (m # ms) = and_then m (\<lambda>x. and_then (sequence ms) (\<lambda>xs. Inr (x # xs)))"

fun join_with :: "string \<Rightarrow> string list \<Rightarrow> string" where
  "join_with sep [] = []"
| "join_with sep [x] = x"
| "join_with sep (x # y # ys) = x @ sep @ join_with sep (y # ys)"

fun toString :: "jsval \<Rightarrow> error + string" where
  "toString JUndefined = Inr ''undefined''"
| "toString JNull = Inr ''null''"
| "toString (JBool b) = Inr (if b then ''true'' else ''false'')"
| "toString (JNum s) = Inr s"
| "toString (JStr s) = Inr s"
| "toString (JArr xs) =
     and_then (sequence (map (\<lambda>x. if nullish x then Inr [] else toString x) xs))
       (\<lambda>ss. Inr (join_with '','' ss))"
| "toString (JObj kvs) =
     (if ''toString'' \<in> fst ` set kvs then Inl TypeError else Inr ''[object Object]'')"

section \<open>Occurrence records\<close>

datatype source_tag = NpmLock | YarnLock | PackageJson

fun tag_text :: "source_tag \<Rightarrow> string" where
  "tag_text NpmLock = ''npm-lock''"
| "tag_text YarnLock = ''yarn-lock''"
| "tag_text PackageJson = ''package-json''"

record row =
  package :: string
  version :: jsval
  dev :: bool
  optional :: bool
  source :: source_tag
  lockfilePath :: string

definition TARGETS :: "string set" where
  "TARGETS = {''eslint-config-prettier'', ''eslint-plugin-prettier'', ''synckit'',
     ''@pkgr/core'', ''napi-postinstall'', ''got-fetch'', ''is''}"

text \<open>\<^verbatim>\<open>TARGETS.has(name)\<close>: only a string can be a member.\<close>

fun targets_has :: "jsval \<Rightarrow> bool" where
  "targets_has (JStr s) = (s \<in> TARGETS)"
| "targets_has _ = False"

fun str_of :: "jsval \<Rightarrow> string" where
  "str_of (JStr s) = s"
| "str_of _ = []"

section \<open>dedupeRows\<close>

text \<open>
  \<^verbatim>\<open>const key = `${r.lockfilePath}::${r.package}::${r.version}::${r.source}`\<close>
\<close>

definition rowKey :: "row \<Rightarrow> error + string" where
  "rowKey r = and_then (toString (version r)) (\<lambda>v.
     Inr (lockfilePath r @ ''::'' @ package r @ ''::'' @ v @ ''::'' @ tag_text (source r)))"

fun dedupeLoop :: "row list \<Rightarrow> string set \<Rightarrow> row list \<Rightarrow> error + row list" where
  "dedupeLoop [] seen out = Inr out"
| "dedupeLoop (r # rows) seen out =
     and_then (rowKey r) (\<lambda>key.
       if key \<in> seen then dedupeLoop rows seen out
       else dedupeLoop rows (insert key seen) (out @ [r]))"

definition dedupeRows :: "row list \<Rightarrow> error + row list" where
  "dedupeRows rows = dedupeLoop rows {} []"


section \<open>The sort of main\<close>

text \<open>
  \<^verbatim>\<open>rows.sort((a, b) => a.package === b.package
      ? a.lockfilePath.localeCompare(b.lockfilePath)
      : a.package.localeCompare(b.package))\<close>

  \<^verbatim>\<open>localeCompare\<close> is the collation of the host: ECMAScript requires it to be a
  consistent comparison, that is, to compare two strings by their rank in a linear
  order of collation keys. The key function \<open>ck\<close> of the host is a parameter.
  \<^verbatim>\<open>Array.prototype.sort\<close> is required to be stable; it is modelled as the stable
  insertion sort, with which every stable sort agrees on a consistent comparator.
\<close>

definition localeCompare :: "(string \<Rightarrow> 'k::linorder) \<Rightarrow> string \<Rightarrow> string \<Rightarrow> int" where
  "localeCompare ck a b = (if ck a < ck b then - 1 else if ck a = ck b then 0 else 1)"

definition compareRows :: "(string \<Rightarrow> 'k::linorder) \<Rightarrow> row \<Rightarrow> row \<Rightarrow> int" where
  "compareRows ck a b =
     (if package a = package b then localeCompare ck (lockfilePath a) (lockfilePath b)
      else localeCompare ck (package a) (package b))"

fun insertRow :: "('a \<Rightarrow> 'a \<Rightarrow> int) \<Rightarrow> 'a \<Rightarrow> 'a list \<Rightarrow> 'a list" where
  "insertRow cmp x [] = [x]"
| "insertRow cmp x (y # ys) = (if cmp x y \<le> 0 then x # y # ys else y # insertRow cmp x ys)"

definition sortWith :: "('a \<Rightarrow> 'a \<Rightarrow> int) \<Rightarrow> 'a list \<Rightarrow> 'a list" where
  "sortWith cmp xs = foldr (insertRow cmp) xs []"

definition sortRows :: "(string \<Rightarrow> 'k::linorder) \<Rightarrow> row list \<Rightarrow> row list" where
  "sortRows ck rows = sortWith (compareRows ck) rows"

text \<open>The aggregation of \<^verbatim>\<open>main\<close>: \<^verbatim>\<open>rows.sort(...)\<close>, then \<^verbatim>\<open>dedupeRows(rows)\<close>.\<close>

definition aggregate :: "(string \<Rightarrow> 'k::linorder) \<Rightarrow> row list \<Rightarrow> error + row list" where
  "aggregate ck rows = dedupeRows (sortRows ck rows)"

section \<open>String operations\<close>

definition dquote :: char where
  "dquote = CHR 0x22"

definition newline :: char where
  "newline = CHR 0x0A"

text \<open>
  The white space of \<^verbatim>\<open>trim\<close> and of \<^verbatim>\<open>\s\<close> among the code units below 256: tab, line
  feed, vertical tab, form feed, carriage return, space and no-break space.
\<close>

definition is_space :: "char \<Rightarrow> bool" where
  "is_space c = (c \<in> {CHR 0x09, CHR 0x0A, CHR 0x0B, CHR 0x0C, CHR 0x0D, CHR 0x20, CHR 0xA0})"

definition trim :: "string \<Rightarrow> string" where
  "trim s = rev (dropWhile is_space (rev (dropWhile is_space s)))"

text \<open>\<^verbatim>\<open>s.split(sep)\<close> with a string separator: the pieces between its occurrences.\<close>

fun split_acc :: "string \<Rightarrow> string \<Rightarrow> string \<Rightarrow> string list" where
  "split_acc sep acc [] = [rev acc]"
| "split_acc sep acc (c # cs) =
     (if take (length sep) (c # cs) = sep
      then rev acc # split_acc sep [] (drop (length sep - 1) cs)
      else split_acc sep (c # acc) cs)"

definition split_on :: "string \<Rightarrow> string \<Rightarrow> string list" where
  "split_on sep s = (if sep = [] then map (\<lambda>c. [c]) s else split_acc sep [] s)"

text \<open>\<^verbatim>\<open>text.split(/\n{2,}/)\<close>: a separator is a maximal run of two or more line feeds.\<close>

function split_blocks :: "string \<Rightarrow> string \<Rightarrow> string list" where
  "split_blocks acc [] = [rev acc]"
| "split_blocks acc (c # cs) =
     (if c = newline \<and> take 1 cs = [newline]
      then rev acc # split_blocks [] (dropWhile (\<lambda>x. x = newline) cs)
      else split_blocks (c # acc) cs)"
  by pat_completeness auto
termination
  by (relation "measure (\<lambda>(acc, s). length s)")
     (auto simp: less_Suc_eq_le length_dropWhile_le)

text \<open>\<^verbatim>\<open>s.split(/,\s*/)\<close>: a separator is a comma with the white space that follows it.\<close>

function split_selectors :: "string \<Rightarrow> string \<Rightarrow> string list" where
  "split_selectors acc [] = [rev acc]"
| "split_selectors acc (c # cs) =
     (if c = CHR '','' then rev acc # split_selectors [] (dropWhile is_space cs)
      else split_selectors (c # acc) cs)"
  by pat_completeness auto
termination
  by (relation "measure (\<lambda>(acc, s). length s)")
     (auto simp: less_Suc_eq_le length_dropWhile_le)

definition ends_with :: "string \<Rightarrow> string \<Rightarrow> bool" where
  "ends_with suffix s = (length suffix \<le> length s \<and> drop (length s - length suffix) s = suffix)"

definition starts_with :: "string \<Rightarrow> string \<Rightarrow> bool" where
  "starts_with pre s = (take (length pre) s = pre)"

text \<open>\<^verbatim>\<open>s.replace(/\/$/, '')\<close>\<close>

definition strip_slash :: "string \<Rightarrow> string" where
  "strip_slash s = (if ends_with ''/'' s then butlast s else s)"

text \<open>\<^verbatim>\<open>s.lastIndexOf(c)\<close>: the greatest index of \<open>c\<close>, or \<open>-1\<close>.\<close>

definition lastIndexOf :: "string \<Rightarrow> char \<Rightarrow> int" where
  "lastIndexOf s c =
     (case filter (\<lambda>i. s ! i = c) (rev [0..<length s]) of [] \<Rightarrow> - 1 | i # _ \<Rightarrow> int i)"

section \<open>extractFromNpmLock\<close>

text \<open>
  The object literal pushed by both branches:
  \<^verbatim>\<open>{ package: name, version: info.version || '', dev: info.dev === true,
     optional: info.optional === true, source: 'npm-lock', lockfilePath }\<close>
\<close>

definition npmRow :: "string \<Rightarrow> jsval \<Rightarrow> string \<Rightarrow> error + row" where
  "npmRow name info path =
     and_then (get info ''version'') (\<lambda>v.
     and_then (get info ''dev'') (\<lambda>d.
     and_then (get info ''optional'') (\<lambda>opt.
       Inr \<lparr>package = name, version = js_or v (JStr []), dev = is_true d,
            optional = is_true opt, source = NpmLock, lockfilePath = path\<rparr>)))"

text \<open>
  \<^verbatim>\<open>let name = info.name;
  if (!name) {
    const segs = pkgPath.split('node_modules/').filter(Boolean);
    if (segs.length > 0) name = segs[segs.length - 1].replace(/\/$/, '');
  }\<close>
\<close>

definition entryName :: "string \<Rightarrow> jsval \<Rightarrow> error + jsval" where
  "entryName pkgPath info =
     and_then (get info ''name'') (\<lambda>name.
       if \<not> truthy name
       then (let segs = filter (\<lambda>s. s \<noteq> []) (split_on ''node_modules/'' pkgPath)
             in if length segs > 0 then Inr (JStr (strip_slash (last segs))) else Inr name)
       else Inr name)"

text \<open>The body of \<^verbatim>\<open>for (const pkgPath of Object.keys(lockJson.packages))\<close>.\<close>

fun packagesLoop :: "jsval \<Rightarrow> string \<Rightarrow> string list \<Rightarrow> row list \<Rightarrow> error + row list" where
  "packagesLoop packages path [] results = Inr results"
| "packagesLoop packages path (pkgPath # rest) results =
     and_then (get packages pkgPath) (\<lambda>v.
     and_then (entryName pkgPath (js_or v (JObj []))) (\<lambda>name.
       if truthy name \<and> targets_has name
       then and_then (npmRow (str_of name) (js_or v (JObj [])) path) (\<lambda>r.
              packagesLoop packages path rest (results @ [r]))
       else packagesLoop packages path rest results))"

text \<open>
  \<^verbatim>\<open>if (lockJson && lockJson.packages && typeof lockJson.packages === 'object')\<close>
\<close>

definition packagesBranch :: "jsval \<Rightarrow> string \<Rightarrow> row list \<Rightarrow> error + row list" where
  "packagesBranch lockJson path results =
     (if \<not> truthy lockJson then Inr results
      else and_then (get lockJson ''packages'') (\<lambda>packages.
        if truthy packages \<and> typeof_object packages
        then and_then (keys packages) (\<lambda>ks. packagesLoop packages path ks results)
        else Inr results))"

text \<open>
  The body of \<^verbatim>\<open>for (const [name, meta] of Object.entries(deps))\<close>; the state is the
  stack and the results.
\<close>

fun depsLoop ::
  "(string \<times> jsval) list \<Rightarrow> string \<Rightarrow> jsval list \<Rightarrow> row list \<Rightarrow> error + (jsval list \<times> row list)"
where
  "depsLoop [] path stack results = Inr (stack, results)"
| "depsLoop ((name, meta) # rest) path stack results =
     (if \<not> truthy meta then depsLoop rest path stack results
      else
        and_then (if name \<in> TARGETS
                  then and_then (npmRow name meta path) (\<lambda>r. Inr (results @ [r]))
                  else Inr results) (\<lambda>results'.
        and_then (get meta ''dependencies'') (\<lambda>d.
          depsLoop rest path (if truthy d then stack @ [d] else stack) results')))"


text \<open>
  \<^verbatim>\<open>const stack = [lockJson.dependencies];
  while (stack.length) { const deps = stack.pop(); for (...) {...} }\<close>

  The loop ends because every value pushed is a proper part of the value popped; the
  measure is the total size of the stack.
\<close>

definition stack_weight :: "jsval list \<Rightarrow> nat" where
  "stack_weight stack = sum_list (map (\<lambda>v. Suc (size v)) stack)"

lemma show_nat_digits: "c \<in> set (show_nat n) \<Longrightarrow> of_char c < (58::nat)"
proof (induction n rule: show_nat.induct)
  case (1 n)
  show ?case
  proof (cases "n < 10")
    case True
    with "1.prems" show ?thesis
      by (subst (asm) show_nat.simps) (simp add: digit_char_def)
  next
    case False
    have "n mod 10 < 10" by simp
    with False "1.prems" "1.IH" show ?thesis
      by (subst (asm) show_nat.simps) (auto simp: digit_char_def)
  qed
qed

lemma own_index_non_digit:
  assumes "c \<in> set k" "\<not> of_char c < (58::nat)"
  shows "own (index_entries xs) k = JUndefined"
proof (cases "map_of (index_entries xs) k")
  case None
  then show ?thesis by (simp add: own_def)
next
  case (Some v)
  then have "(k, v) \<in> set (index_entries xs)" by (rule map_of_SomeD)
  then have "k \<in> set (map show_nat [0..<length xs])"
    unfolding index_entries_def by (rule set_zip_leftD)
  then obtain i where "k = show_nat i" by auto
  with assms show_nat_digits show ?thesis by blast
qed

lemma own_size: "truthy (own kvs k) \<Longrightarrow> (k, own kvs k) \<in> set kvs"
  by (auto simp: own_def split: option.splits dest: map_of_SomeD)

lemma get_dependencies_size:
  assumes "get meta ''dependencies'' = Inr d" "truthy d"
  shows "size d < size meta"
proof (cases meta)
  case (JStr s)
  have "own (index_entries (map (\<lambda>c. JStr [c]) s)) ''dependencies'' = JUndefined"
    by (rule own_index_non_digit [where c = "CHR ''d''"]) simp_all
  with assms JStr show ?thesis by simp
next
  case (JArr xs)
  have "own (index_entries xs) ''dependencies'' = JUndefined"
    by (rule own_index_non_digit [where c = "CHR ''d''"]) simp_all
  with assms JArr show ?thesis by simp
next
  case (JObj kvs)
  with assms have "(''dependencies'', d) \<in> set kvs"
    using own_size [of kvs "''dependencies''"] by simp
  then have "size d < size_list (size_prod (\<lambda>_. 0) size) kvs"
    by (induction kvs) auto
  with JObj show ?thesis by simp
qed (use assms in auto)

lemma depsLoop_weight:
  "depsLoop es path stack results = Inr (stack', results') \<Longrightarrow>
   stack_weight stack' \<le> stack_weight stack + sum_list (map (\<lambda>e. size (snd e)) es)"
proof (induction es arbitrary: stack results)
  case Nil
  then show ?case by simp
next
  case (Cons e rest)
  obtain name meta where e: "e = (name, meta)" by (cases e)
  show ?case
  proof (cases "truthy meta")
    case False
    with Cons.prems e have "depsLoop rest path stack results = Inr (stack', results')" by simp
    from Cons.IH [OF this] e show ?thesis by simp
  next
    case True
    from Cons.prems True e obtain rs d where
      d: "get meta ''dependencies'' = Inr d"
      and rec: "depsLoop rest path (if truthy d then stack @ [d] else stack) rs = Inr (stack', results')"
      by (auto simp: and_then_def split: sum.splits if_splits)
    from Cons.IH [OF rec]
    have "stack_weight stack' \<le> stack_weight (if truthy d then stack @ [d] else stack)
        + sum_list (map (\<lambda>e. size (snd e)) rest)" .
    moreover have "stack_weight (if truthy d then stack @ [d] else stack) \<le> stack_weight stack + size meta"
      using get_dependencies_size [OF d] by (auto simp: stack_weight_def)
    ultimately show ?thesis using e by simp
  qed
qed

lemma entries_weight:
  "entries v = Inr es \<Longrightarrow> sum_list (map (\<lambda>e. size (snd e)) es) \<le> size v"
proof (cases v)
  case (JStr s)
  assume "entries v = Inr es"
  with JStr have es: "es = index_entries (map (\<lambda>c. JStr [c]) s)" by simp
  have "\<forall>e \<in> set es. size (snd e) = 0"
    unfolding es index_entries_def by (auto dest!: set_zip_rightD)
  then have "sum_list (map (\<lambda>e. size (snd e)) es) = 0" by (induction es) auto
  then show ?thesis by linarith
next
  case (JArr xs)
  assume "entries v = Inr es"
  with JArr have es: "map snd es = xs" by (auto simp: index_entries_def)
  have "sum_list (map size xs) \<le> size_list size xs" by (induction xs) auto
  moreover have "map (\<lambda>e. size (snd e)) es = map size (map snd es)" by simp
  ultimately show ?thesis using JArr es by simp
next
  case (JObj kvs)
  assume "entries v = Inr es"
  with JObj have es: "es = kvs" by simp
  have "sum_list (map (\<lambda>e. size (snd e)) kvs) \<le> size_list (size_prod (\<lambda>_. 0) size) kvs"
    by (induction kvs) auto
  then show ?thesis using JObj es by simp
qed auto

function stackLoop :: "jsval list \<Rightarrow> string \<Rightarrow> row list \<Rightarrow> error + row list" where
  "stackLoop stack path results =
     (if stack = [] then Inr results
      else case entries (last stack) of
        Inl e \<Rightarrow> Inl e
      | Inr es \<Rightarrow>
         (case depsLoop es path (butlast stack) results of
            Inl e \<Rightarrow> Inl e
          | Inr (stack', results') \<Rightarrow> stackLoop stack' path results'))"
  by pat_completeness auto
termination
proof (relation "measure (\<lambda>(stack, path, results). stack_weight stack)")
  show "wf (measure (\<lambda>(stack, path, results). stack_weight stack))" by simp
next
  fix stack :: "jsval list" and path :: string and results :: "row list"
    and es x stack' results'
  assume ne: "stack \<noteq> []" and e: "entries (last stack) = Inr es"
    and d: "depsLoop es path (butlast stack) results = Inr x" and x: "(stack', results') = x"
  from d x have "depsLoop es path (butlast stack) results = Inr (stack', results')" by simp
  from depsLoop_weight [OF this] entries_weight [OF e]
  have "stack_weight stack' \<le> stack_weight (butlast stack) + size (last stack)" by simp
  moreover have "stack_weight stack = stack_weight (butlast stack) + Suc (size (last stack))"
    using ne by (induction stack) (auto simp: stack_weight_def)
  ultimately show "((stack', path, results'), (stack, path, results))
      \<in> measure (\<lambda>(stack, path, results). stack_weight stack)" by simp
qed


declare stackLoop.simps [simp del]

text \<open>
  \<^verbatim>\<open>if (lockJson && lockJson.dependencies && typeof lockJson.dependencies === 'object')\<close>
\<close>

definition dependenciesBranch :: "jsval \<Rightarrow> string \<Rightarrow> row list \<Rightarrow> error + row list" where
  "dependenciesBranch lockJson path results =
     (if \<not> truthy lockJson then Inr results
      else and_then (get lockJson ''dependencies'') (\<lambda>deps.
        if truthy deps \<and> typeof_object deps then stackLoop [deps] path results
        else Inr results))"

definition extractFromNpmLock :: "jsval \<Rightarrow> string \<Rightarrow> error + row list" where
  "extractFromNpmLock lockJson path =
     and_then (packagesBranch lockJson path []) (\<lambda>results.
       dependenciesBranch lockJson path results)"

section \<open>extractFromYarnLockV1\<close>

text \<open>
  \<^verbatim>\<open>const s = selector.replace(/^"+|"+$/g, '');
  const at = s.lastIndexOf('@');
  if (at <= 0) return null;
  return s.slice(0, at);\<close>
\<close>

definition strip_quotes :: "string \<Rightarrow> string" where
  "strip_quotes selector =
     rev (dropWhile (\<lambda>c. c = dquote) (rev (dropWhile (\<lambda>c. c = dquote) selector)))"

definition selectorToPkgName :: "string \<Rightarrow> string option" where
  "selectorToPkgName selector =
     (let s = strip_quotes selector; at = lastIndexOf s (CHR ''@'')
      in if at \<le> 0 then None else Some (take (nat at) s))"

text \<open>
  \<^verbatim>\<open>header.replace(/^"/, '').replace(/":?$/, ':').replace(/:$/, '').split(/,\s*/)\<close>
\<close>

definition strip_leading_quote :: "string \<Rightarrow> string" where
  "strip_leading_quote s = (if starts_with [dquote] s then drop 1 s else s)"

definition normalize_end :: "string \<Rightarrow> string" where
  "normalize_end s =
     (if ends_with [dquote, CHR '':''] s then take (length s - 2) s @ '':''
      else if ends_with [dquote] s then butlast s @ '':''
      else s)"

definition strip_colon :: "string \<Rightarrow> string" where
  "strip_colon s = (if ends_with '':'' s then butlast s else s)"

definition headerSelectors :: "string \<Rightarrow> string list" where
  "headerSelectors header =
     split_selectors [] (strip_colon (normalize_end (strip_leading_quote header)))"

text \<open>
  \<^verbatim>\<open>const versionLine = lines.find(l => l.startsWith('version '));
  const versionMatch = versionLine ? versionLine.match(/^version\s+"([^"]+)"/) : null;
  const version = versionMatch ? versionMatch[1] : '';\<close>
\<close>

definition version_match :: "string \<Rightarrow> string option" where
  "version_match l =
     (if starts_with ''version'' l
      then (let r = dropWhile is_space (drop 7 l)
            in if takeWhile is_space (drop 7 l) \<noteq> [] \<and> starts_with [dquote] r
               then (let body = takeWhile (\<lambda>c. c \<noteq> dquote) (drop 1 r)
                     in if body \<noteq> [] \<and> dropWhile (\<lambda>c. c \<noteq> dquote) (drop 1 r) \<noteq> []
                        then Some body else None)
               else None)
      else None)"

definition blockVersion :: "string list \<Rightarrow> string" where
  "blockVersion lines =
     (case find (starts_with ''version '') lines of
        None \<Rightarrow> []
      | Some versionLine \<Rightarrow>
          (case version_match versionLine of None \<Rightarrow> [] | Some v \<Rightarrow> v))"

text \<open>The body of \<^verbatim>\<open>for (const sel of headerSelectors)\<close>.\<close>

definition selectorRows :: "string \<Rightarrow> string \<Rightarrow> string \<Rightarrow> row list" where
  "selectorRows ver path sel =
     (case selectorToPkgName sel of
        None \<Rightarrow> []
      | Some name \<Rightarrow>
          if name = [] then []
          else if name \<in> TARGETS
          then [\<lparr>package = name, version = JStr ver, dev = False, optional = False,
                 source = YarnLock, lockfilePath = path\<rparr>]
          else [])"

text \<open>The body of \<^verbatim>\<open>for (const blockRaw of blocks)\<close>.\<close>

definition blockRows :: "string \<Rightarrow> string \<Rightarrow> row list" where
  "blockRows path blockRaw =
     (let block = trim blockRaw
      in if block = [] then []
         else (let lines = map trim (split_on [newline] block)
               in case lines of
                    [] \<Rightarrow> []
                  | header # _ \<Rightarrow>
                      if header = [] \<or> starts_with ''#'' header then []
                      else concat (map (selectorRows (blockVersion lines) path)
                                     (headerSelectors header))))"

definition extractFromYarnLockV1 :: "string \<Rightarrow> string \<Rightarrow> row list" where
  "extractFromYarnLockV1 text path =
     concat (map (blockRows path) (split_blocks [] text))"

section \<open>extractFromPackageJson\<close>

definition buckets :: "(string \<times> bool \<times> bool) list" where
  "buckets = [(''dependencies'', False, False), (''devDependencies'', True, False),
     (''optionalDependencies'', False, True)]"

text \<open>The body of \<^verbatim>\<open>for (const [name, range] of Object.entries(deps))\<close>.\<close>

fun rangesLoop ::
  "(string \<times> jsval) list \<Rightarrow> bool \<Rightarrow> bool \<Rightarrow> string \<Rightarrow> row list \<Rightarrow> error + row list"
where
  "rangesLoop [] isDev isOpt path results = Inr results"
| "rangesLoop ((name, rng) # rest) isDev isOpt path results =
     (if name \<in> TARGETS
      then and_then (toString (js_or rng (JStr []))) (\<lambda>v.
             rangesLoop rest isDev isOpt path
               (results @ [\<lparr>package = name, version = JStr v, dev = isDev, optional = isOpt,
                             source = PackageJson, lockfilePath = path\<rparr>]))
      else rangesLoop rest isDev isOpt path results)"

text \<open>
  The body of \<^verbatim>\<open>for (const [field, isDev, isOpt] of buckets)\<close>, with
  \<^verbatim>\<open>const deps = pkgJson?.[field]; if (!deps || typeof deps !== 'object') continue;\<close>
\<close>

fun bucketsLoop ::
  "(string \<times> bool \<times> bool) list \<Rightarrow> jsval \<Rightarrow> string \<Rightarrow> row list \<Rightarrow> error + row list"
where
  "bucketsLoop [] pkgJson path results = Inr results"
| "bucketsLoop ((field, isDev, isOpt) # rest) pkgJson path results =
     and_then (if nullish pkgJson then Inr JUndefined else get pkgJson field) (\<lambda>deps.
       if \<not> truthy deps \<or> \<not> typeof_object deps then bucketsLoop rest pkgJson path results
       else and_then (entries deps) (\<lambda>es.
              and_then (rangesLoop es isDev isOpt path results) (\<lambda>results'.
                bucketsLoop rest pkgJson path results')))"

definition extractFromPackageJson :: "jsval \<Rightarrow> string \<Rightarrow> error + row list" where
  "extractFromPackageJson pkgJson path = bucketsLoop buckets pkgJson path []"


section \<open>Notions used by the statements\<close>

text \<open>
  The 4-tuple of a record that the deduplication is meant to compare.
\<close>

definition tuple4 :: "row \<Rightarrow> string \<times> string \<times> jsval \<times> source_tag" where
  "tuple4 r = (lockfilePath r, package r, version r, source r)"

text \<open>
  A text is \<open>plain\<close> when it does not contain the separator \<^verbatim>\<open>::\<close> of the key and
  does not end in a colon; a record is plain when its path, its package and its
  version are plain texts (in particular its version is a string).
\<close>

fun has_sep :: "string \<Rightarrow> bool" where
  "has_sep (a # b # cs) = ((a = CHR '':'' \<and> b = CHR '':'') \<or> has_sep (b # cs))"
| "has_sep _ = False"

definition plain :: "string \<Rightarrow> bool" where
  "plain s = (\<not> has_sep s \<and> \<not> ends_with '':'' s)"

definition plain_row :: "row \<Rightarrow> bool" where
  "plain_row r = (plain (lockfilePath r) \<and> plain (package r) \<and>
     (case version r of JStr v \<Rightarrow> plain v | _ \<Rightarrow> False))"

definition key_text :: "row \<Rightarrow> string" where
  "key_text r = lockfilePath r @ ''::'' @ package r @ ''::'' @ str_of (version r) @ ''::'' @
     tag_text (source r)"

text \<open>Keeping the first occurrence of every key, as a function of the list alone.\<close>

fun keep :: "('a \<Rightarrow> 'k) \<Rightarrow> 'k set \<Rightarrow> 'a list \<Rightarrow> 'a list" where
  "keep kf seen [] = []"
| "keep kf seen (r # rs) =
     (if kf r \<in> seen then keep kf seen rs else r # keep kf (insert (kf r) seen) rs)"

text \<open>All records of a list name a package of the target set.\<close>

definition all_targets :: "row list \<Rightarrow> bool" where
  "all_targets rows = (\<forall>r \<in> set rows. package r \<in> TARGETS)"

text \<open>
  The values that are no object: \<^verbatim>\<open>undefined\<close>, \<^verbatim>\<open>null\<close>, the booleans, the numbers
  and the strings.
\<close>

fun primitive :: "jsval \<Rightarrow> bool" where
  "primitive (JArr xs) = False"
| "primitive (JObj kvs) = False"
| "primitive _ = True"


definition yarnRow :: "string \<Rightarrow> string \<Rightarrow> string \<Rightarrow> row" where
  "yarnRow ver path name = \<lparr>package = name, version = JStr ver, dev = False,
     optional = False, source = YarnLock, lockfilePath = path\<rparr>"


text \<open>
  The property of a value that is neither \<^verbatim>\<open>null\<close> nor \<^verbatim>\<open>undefined\<close>, and the entries of a
  value of which \<^verbatim>\<open>Object.entries\<close> can be taken.
\<close>

definition js_get :: "jsval \<Rightarrow> string \<Rightarrow> jsval" where
  "js_get v k = (case get v k of Inr x \<Rightarrow> x | Inl e \<Rightarrow> JUndefined)"

definition entries_of :: "jsval \<Rightarrow> (string \<times> jsval) list" where
  "entries_of v = (case entries v of Inr es \<Rightarrow> es | Inl e \<Rightarrow> [])"

text \<open>
  The manifest as the specification describes it. A field of the manifest contributes
  its entries when it is present as a mapping; the entries of the three fields whose name
  is a target, with the flags of their field; the version of a range.
\<close>

definition spec_field_entries :: "jsval \<Rightarrow> string \<Rightarrow> (string \<times> jsval) list" where
  "spec_field_entries pkgJson field =
     (let deps = (if nullish pkgJson then JUndefined else js_get pkgJson field)
      in if truthy deps \<and> typeof_object deps then entries_of deps else [])"

definition spec_target_ranges :: "jsval \<Rightarrow> (string \<times> bool \<times> bool) list \<Rightarrow> (string \<times> jsval \<times> bool \<times> bool) list" where
  "spec_target_ranges pkgJson bs =
     concat (map (\<lambda>(field, isDev, isOpt).
       map (\<lambda>(name, rng). (name, rng, isDev, isOpt))
         (filter (\<lambda>(name, rng). name \<in> TARGETS) (spec_field_entries pkgJson field))) bs)"

definition spec_range_version :: "jsval \<Rightarrow> error + string" where
  "spec_range_version rng = (if truthy rng then toString rng else Inr [])"

definition spec_manifest_row :: "string \<Rightarrow> string \<times> jsval \<times> bool \<times> bool \<Rightarrow> error + row" where
  "spec_manifest_row path t =
     (case t of (name, rng, isDev, isOpt) \<Rightarrow>
        and_then (spec_range_version rng) (\<lambda>v.
          Inr \<lparr>package = name, version = JStr v, dev = isDev, optional = isOpt,
               source = PackageJson, lockfilePath = path\<rparr>))"



definition npmRecord :: "string \<Rightarrow> jsval \<Rightarrow> string \<Rightarrow> row" where
  "npmRecord name info path =
     \<lparr>package = name,
      version = (if truthy (js_get info ''version'') then js_get info ''version'' else JStr []),
      dev = (js_get info ''dev'' = JBool True),
      optional = (js_get info ''optional'' = JBool True),
      source = NpmLock, lockfilePath = path\<rparr>"


text \<open>The pair of collation keys by which the sort orders the records.\<close>

definition row_key :: "(string \<Rightarrow> 'k::linorder) \<Rightarrow> row \<Rightarrow> 'k \<times> 'k" where
  "row_key ck r = (ck (package r), ck (lockfilePath r))"

text \<open>The key of a record whose version converts to a string.\<close>

definition key_of :: "row \<Rightarrow> string" where
  "key_of r = (case rowKey r of Inr k \<Rightarrow> k | Inl e \<Rightarrow> [])"

text \<open>Concrete records and inputs for the examples.\<close>

definition row_is :: row where
  "row_is = \<lparr>package = ''is'', version = JStr ''3.3.0'', dev = False, optional = False,
     source = NpmLock, lockfilePath = ''/w/package-lock.json''\<rparr>"

definition row_synckit :: row where
  "row_synckit = \<lparr>package = ''synckit'', version = JStr ''0.11.8'', dev = False,
     optional = False, source = YarnLock, lockfilePath = ''/w/yarn.lock''\<rparr>"

definition row_core :: row where
  "row_core = \<lparr>package = ''@pkgr/core'', version = JStr ''1.2.3'', dev = False,
     optional = False, source = YarnLock, lockfilePath = ''/w/yarn.lock''\<rparr>"

definition row_manifest :: row where
  "row_manifest = \<lparr>package = ''synckit'', version = JStr ''^0.10.0'', dev = True,
     optional = False, source = PackageJson, lockfilePath = ''/w/package.json''\<rparr>"

text \<open>
  \<^verbatim>\<open>{"packages": {"": {"name": "demo", "version": "0.1.0"},
     "node_modules/is": {"version": "3.3.0"},
     "node_modules/lodash": {"version": "4.17.21"}}}\<close>
\<close>

definition lock_v2 :: jsval where
  "lock_v2 = JObj [(''packages'', JObj [
      ([], JObj [(''name'', JStr ''demo''), (''version'', JStr ''0.1.0'')]),
      (''node_modules/is'', JObj [(''version'', JStr ''3.3.0'')]),
      (''node_modules/lodash'', JObj [(''version'', JStr ''4.17.21'')])])]"

text \<open>
  Two blocks of a \<^verbatim>\<open>yarn.lock\<close>: one of a target, one of another package.
\<close>

definition yarn_text :: string where
  "yarn_text =
     [dquote] @ ''@pkgr/core@^1.0.0'' @ [dquote] @ '':'' @ [newline] @
     ''  version '' @ [dquote] @ ''1.2.3'' @ [dquote] @ [newline] @ [newline] @
     ''lodash@^4.17.0:'' @ [newline] @
     ''  version '' @ [dquote] @ ''4.17.21'' @ [dquote] @ [newline]"

text \<open>
  \<^verbatim>\<open>{"dependencies": {"lodash": "^4.17.0"}, "devDependencies": {"synckit": "^0.10.0"}}\<close>
\<close>

definition manifest :: jsval where
  "manifest = JObj [(''dependencies'', JObj [(''lodash'', JStr ''^4.17.0'')]),
     (''devDependencies'', JObj [(''synckit'', JStr ''^0.10.0'')])]"

text \<open>
  The block of the specification: \<^verbatim>\<open>"@pkgr/core@^1.0.0":\<close>, then \<^verbatim>\<open>  version "1.2.3"\<close>.
\<close>

definition core_block :: string where
  "core_block =
     [dquote] @ ''@pkgr/core@^1.0.0'' @ [dquote] @ '':'' @ [newline] @
     ''  version '' @ [dquote] @ ''1.2.3'' @ [dquote]"




text \<open>
  \<^verbatim>\<open>{"dependencies": {"is": "", "lodash": "^4.17.0"},
    "devDependencies": {"synckit": "^0.10.0"},
    "optionalDependencies": {"got-fetch": null},
    "peerDependencies": {"is": "3.x"}}\<close>
\<close>

definition manifest_all :: jsval where
  "manifest_all = JObj [
     (''dependencies'', JObj [(''is'', JStr []), (''lodash'', JStr ''^4.17.0'')]),
     (''devDependencies'', JObj [(''synckit'', JStr ''^0.10.0'')]),
     (''optionalDependencies'', JObj [(''got-fetch'', JNull)]),
     (''peerDependencies'', JObj [(''is'', JStr ''3.x'')])]"

definition manifestRecord :: "string \<Rightarrow> string \<Rightarrow> bool \<Rightarrow> bool \<Rightarrow> row" where
  "manifestRecord name ver isDev isOpt = \<lparr>package = name, version = JStr ver, dev = isDev,
     optional = isOpt, source = PackageJson, lockfilePath = ''/w/package.json''\<rparr>"


text \<open>
  \<^verbatim>\<open>{"dependencies": {"a": {"version": "1.0.0",
      "dependencies": {"is": {"version": "2.0.0"}}}}}\<close>
\<close>

definition lock_nested :: jsval where
  "lock_nested = JObj [(''dependencies'', JObj [(''a'', JObj [(''version'', JStr ''1.0.0''),
     (''dependencies'', JObj [(''is'', JObj [(''version'', JStr ''2.0.0'')])])])])]"

text \<open>
  Both shapes in one lock file:
  \<^verbatim>\<open>{"packages": {"": {"name": "demo"},
      "node_modules/a/node_modules/is/": {"version": "3.3.0", "dev": true},
      "node_modules/x": {"name": "synckit", "optional": true}},
    "dependencies": {"synckit": {"version": "0.11.8"},
      "a": {"version": "1.0.0", "dependencies": {"is": {"version": "2.0.0"}, "b": null}}}}\<close>
\<close>

definition lock_both :: jsval where
  "lock_both = JObj [
     (''packages'', JObj [
        ([], JObj [(''name'', JStr ''demo'')]),
        (''node_modules/a/node_modules/is/'', JObj [(''version'', JStr ''3.3.0''), (''dev'', JBool True)]),
        (''node_modules/x'', JObj [(''name'', JStr ''synckit''), (''optional'', JBool True)])]),
     (''dependencies'', JObj [
        (''synckit'', JObj [(''version'', JStr ''0.11.8'')]),
        (''a'', JObj [(''version'', JStr ''1.0.0''),
           (''dependencies'', JObj [(''is'', JObj [(''version'', JStr ''2.0.0'')]), (''b'', JNull)])])])]"

definition lockRecord :: "string \<Rightarrow> string \<Rightarrow> bool \<Rightarrow> bool \<Rightarrow> row" where
  "lockRecord name ver isDev isOpt = \<lparr>package = name, version = JStr ver, dev = isDev,
     optional = isOpt, source = NpmLock, lockfilePath = ''/w/package-lock.json''\<rparr>"

text \<open>
  Records for the sort: a second version of \<^verbatim>\<open>is\<close> in the same lock file, and \<^verbatim>\<open>is\<close> in
  another lock file. In the examples the collation compares the code units.
\<close>

definition row_is_old :: row where
  "row_is_old = \<lparr>package = ''is'', version = JStr ''2.0.0'', dev = False, optional = False,
     source = NpmLock, lockfilePath = ''/w/package-lock.json''\<rparr>"

definition row_is_b :: row where
  "row_is_b = \<lparr>package = ''is'', version = JStr ''3.3.0'', dev = False, optional = False,
     source = NpmLock, lockfilePath = ''/w/b/package-lock.json''\<rparr>"

definition code_units :: "string \<Rightarrow> string" where
  "code_units s = s"

text \<open>
  A collation that ignores the control character U+0001, so that it gives two
  different strings the same key; and records of manifests for it: the package names
  of \<open>row_c\<close> and of \<open>row_b\<close>, \<open>row_a\<close> differ and have the same key.
\<close>

definition ignoring_soh :: "string \<Rightarrow> string" where
  "ignoring_soh s = filter (\<lambda>c. c \<noteq> CHR 0x01) s"

definition recordAt :: "string \<Rightarrow> string \<Rightarrow> row" where
  "recordAt name path = \<lparr>package = name, version = JStr ''1.0.0'', dev = False,
     optional = False, source = PackageJson, lockfilePath = path\<rparr>"




section \<open>The nodes of a dependency tree\<close>

text \<open>
  The tree of the \<^verbatim>\<open>dependencies\<close> mappings as the specification describes it: a node
  is an entry with truthy metadata, and below it come the nodes of its own truthy
  \<^verbatim>\<open>dependencies\<close>. \<open>nodes\<close> lists the nodes of all depths; \<open>node_rows\<close> are the records of
  the nodes whose name is a target.
\<close>

lemma entries_of_size: "(name, meta) \<in> set (entries_of deps) \<Longrightarrow> size meta \<le> size deps"
proof -
  assume a: "(name, meta) \<in> set (entries_of deps)"
  show ?thesis
  proof (cases "entries deps")
    case (Inl e)
    with a show ?thesis by (simp add: entries_of_def)
  next
    case (Inr es)
    with a have "(name, meta) \<in> set es" by (simp add: entries_of_def)
    then have "size meta \<le> sum_list (map (\<lambda>e. size (snd e)) es)"
      by (induction es) auto
    with entries_weight [OF Inr] show ?thesis by simp
  qed
qed

lemma js_get_dependencies_size:
  "truthy (js_get meta ''dependencies'') \<Longrightarrow> size (js_get meta ''dependencies'') < size meta"
proof (cases "get meta ''dependencies''")
  case (Inl e)
  assume "truthy (js_get meta ''dependencies'')"
  with Inl show ?thesis by (simp add: js_get_def)
next
  case (Inr d)
  assume "truthy (js_get meta ''dependencies'')"
  with Inr get_dependencies_size [OF Inr] show ?thesis by (simp add: js_get_def)
qed

function nodes :: "jsval \<Rightarrow> (string \<times> jsval) list" where
  "nodes deps =
     concat (map (\<lambda>(name, meta).
         if truthy meta
         then (name, meta) #
              (if truthy (js_get meta ''dependencies'')
               then nodes (js_get meta ''dependencies'') else [])
         else [])
       (entries_of deps))"
  by pat_completeness auto
termination
proof (relation "measure size")
  show "wf (measure size)" by simp
next
  fix deps :: jsval and x :: "string \<times> jsval" and name :: string and meta :: jsval
  assume "x \<in> set (entries_of deps)" "(name, meta) = x" "truthy meta"
    "truthy (js_get meta ''dependencies'')"
  then have "size meta \<le> size deps" "size (js_get meta ''dependencies'') < size meta"
    using entries_of_size js_get_dependencies_size by auto
  then show "(js_get meta ''dependencies'', deps) \<in> measure size" by simp
qed

declare nodes.simps [simp del]

definition node_rows :: "string \<Rightarrow> jsval \<Rightarrow> row list" where
  "node_rows path deps =
     map (\<lambda>(name, meta). npmRecord name meta path)
       (filter (\<lambda>(name, meta). name \<in> TARGETS) (nodes deps))"

text \<open>
  What one pass over the entries of a mapping pushes on the stack and emits, and the
  records of the trees below the values of a stack, as a multiset.
\<close>

definition pushed :: "(string \<times> jsval) list \<Rightarrow> jsval list" where
  "pushed es = map (\<lambda>(name, meta). js_get meta ''dependencies'')
     (filter (\<lambda>(name, meta). truthy meta \<and> truthy (js_get meta ''dependencies'')) es)"

definition direct :: "string \<Rightarrow> (string \<times> jsval) list \<Rightarrow> row list" where
  "direct path es = map (\<lambda>(name, meta). npmRecord name meta path)
     (filter (\<lambda>(name, meta). truthy meta \<and> name \<in> TARGETS) es)"

definition tree_rows :: "string \<Rightarrow> jsval list \<Rightarrow> row multiset" where
  "tree_rows path stack = sum_list (map (\<lambda>d. mset (node_rows path d)) stack)"

section \<open>Only target packages are emitted\<close>

lemma get_truthy: "truthy v \<Longrightarrow> \<exists>x. get v k = Inr x"
  by (cases v) auto

lemma entries_truthy: "truthy v \<Longrightarrow> \<exists>es. entries v = Inr es"
  by (cases v) auto

lemma npmRow_truthy:
  "truthy info \<Longrightarrow> \<exists>r. npmRow name info path = Inr r \<and> package r = name"
  by (cases info) (auto simp: npmRow_def and_then_def)

lemma npmRow_package: "npmRow name info path = Inr r \<Longrightarrow> package r = name"
  by (auto simp: npmRow_def and_then_def split: sum.splits)

lemma targets_has_str: "targets_has v \<Longrightarrow> str_of v \<in> TARGETS"
  by (cases v) auto

lemma truthy_js_or_obj: "truthy (js_or v (JObj []))"
  by (simp add: js_or_def)

lemma entryName_total: "truthy info \<Longrightarrow> \<exists>n. entryName pkgPath info = Inr n"
  using get_truthy [of info "''name''"]
  by (auto simp: entryName_def and_then_def Let_def)

lemma packagesLoop_targets:
  "all_targets results \<Longrightarrow> truthy packages \<Longrightarrow>
   \<exists>out. packagesLoop packages path ks results = Inr out \<and> all_targets out"
proof (induction ks arbitrary: results)
  case Nil
  then show ?case by simp
next
  case (Cons k ks)
  from get_truthy [OF Cons.prems(2)] obtain v where v: "get packages k = Inr v" by blast
  from entryName_total [OF truthy_js_or_obj] obtain n
    where n: "entryName k (js_or v (JObj [])) = Inr n" by blast
  show ?case
  proof (cases "truthy n \<and> targets_has n")
    case True
    from npmRow_truthy [OF truthy_js_or_obj] obtain r
      where r: "npmRow (str_of n) (js_or v (JObj [])) path = Inr r" "package r = str_of n"
      by blast
    with True Cons.prems have "all_targets (results @ [r])"
      by (simp add: all_targets_def targets_has_str)
    from Cons.IH [OF this Cons.prems(2)] v n r True show ?thesis
      by (simp add: and_then_def)
  next
    case False
    with Cons.IH [OF Cons.prems] v n show ?thesis
      by (auto simp: and_then_def)
  qed
qed

lemma packagesBranch_targets:
  "all_targets results \<Longrightarrow>
   \<exists>out. packagesBranch lockJson path results = Inr out \<and> all_targets out"
proof (cases "truthy lockJson")
  case False
  assume "all_targets results"
  with False show ?thesis by (simp add: packagesBranch_def)
next
  case True
  assume a: "all_targets results"
  from get_truthy [OF True] obtain p where p: "get lockJson ''packages'' = Inr p" by blast
  show ?thesis
  proof (cases "truthy p \<and> typeof_object p")
    case False
    with a True p show ?thesis by (auto simp: packagesBranch_def and_then_def)
  next
    case t: True
    then obtain es where es: "entries p = Inr es" using entries_truthy by blast
    from packagesLoop_targets [OF a, of p path "map fst es"] t True p es show ?thesis
      by (simp add: packagesBranch_def and_then_def keys_def)
  qed
qed

lemma depsLoop_targets:
  "all_targets results \<Longrightarrow> \<forall>v \<in> set stack. truthy v \<Longrightarrow>
   \<exists>stack' out. depsLoop es path stack results = Inr (stack', out) \<and> all_targets out
     \<and> (\<forall>v \<in> set stack'. truthy v)"
proof (induction es arbitrary: stack results)
  case Nil
  then show ?case by simp
next
  case (Cons e es)
  obtain name meta where e: "e = (name, meta)" by (cases e)
  show ?case
  proof (cases "truthy meta")
    case False
    with Cons.IH [OF Cons.prems] e show ?thesis by simp
  next
    case True
    from npmRow_truthy [OF True] obtain r
      where r: "npmRow name meta path = Inr r" "package r = name" by blast
    from get_truthy [OF True] obtain d where d: "get meta ''dependencies'' = Inr d" by blast
    let ?rs = "if name \<in> TARGETS then results @ [r] else results"
    let ?st = "if truthy d then stack @ [d] else stack"
    have a: "all_targets ?rs" using Cons.prems(1) r by (simp add: all_targets_def)
    have b: "\<forall>v \<in> set ?st. truthy v" using Cons.prems(2) by simp
    from Cons.IH [OF a b] True e r d show ?thesis
      by (auto simp: and_then_def)
  qed
qed

lemma stackLoop_targets:
  "all_targets results \<Longrightarrow> \<forall>v \<in> set stack. truthy v \<Longrightarrow>
   \<exists>out. stackLoop stack path results = Inr out \<and> all_targets out"
proof (induction stack path results rule: stackLoop.induct)
  case (1 stack path results)
  show ?case
  proof (cases "stack = []")
    case True
    with "1.prems" show ?thesis by (simp add: stackLoop.simps)
  next
    case False
    with "1.prems" have "truthy (last stack)" by simp
    then obtain es where es: "entries (last stack) = Inr es" using entries_truthy by blast
    have "\<forall>v \<in> set (butlast stack). truthy v"
      using "1.prems"(2) by (meson in_set_butlastD)
    from depsLoop_targets [OF "1.prems"(1) this] obtain stack' out where
      d: "depsLoop es path (butlast stack) results = Inr (stack', out)"
      and o: "all_targets out" and t: "\<forall>v \<in> set stack'. truthy v" by blast
    from "1.IH" [OF False es d refl o t] False es d show ?thesis
      by (subst stackLoop.simps) simp
  qed
qed

lemma dependenciesBranch_targets:
  "all_targets results \<Longrightarrow>
   \<exists>out. dependenciesBranch lockJson path results = Inr out \<and> all_targets out"
proof (cases "truthy lockJson")
  case False
  assume "all_targets results"
  with False show ?thesis by (simp add: dependenciesBranch_def)
next
  case True
  assume a: "all_targets results"
  from get_truthy [OF True] obtain p where p: "get lockJson ''dependencies'' = Inr p" by blast
  show ?thesis
  proof (cases "truthy p \<and> typeof_object p")
    case False
    with a True p show ?thesis by (auto simp: dependenciesBranch_def and_then_def)
  next
    case t: True
    from stackLoop_targets [OF a, of "[p]" path] t True p show ?thesis
      by (simp add: dependenciesBranch_def and_then_def)
  qed
qed

lemma extractFromNpmLock_targets:
  "\<exists>rows. extractFromNpmLock lockJson path = Inr rows \<and> all_targets rows"
proof -
  have "all_targets []" by (simp add: all_targets_def)
  from packagesBranch_targets [OF this] obtain r1 where
    r1: "packagesBranch lockJson path [] = Inr r1" "all_targets r1" by blast
  from dependenciesBranch_targets [OF r1(2)] r1(1) show ?thesis
    by (simp add: extractFromNpmLock_def and_then_def)
qed

lemma selectorRows_targets: "all_targets (selectorRows ver path sel)"
  by (auto simp: selectorRows_def all_targets_def split: option.splits)

lemma blockRows_targets: "all_targets (blockRows path b)"
  using selectorRows_targets
  by (auto simp: blockRows_def all_targets_def Let_def split: list.splits)

lemma extractFromYarnLockV1_targets: "all_targets (extractFromYarnLockV1 text path)"
  using blockRows_targets by (auto simp: extractFromYarnLockV1_def all_targets_def)

lemma rangesLoop_targets:
  "all_targets results \<Longrightarrow> rangesLoop es isDev isOpt path results = Inr out \<Longrightarrow> all_targets out"
proof (induction es arbitrary: results)
  case Nil
  then show ?case by simp
next
  case (Cons e es)
  obtain name rng where e: "e = (name, rng)" by (cases e)
  show ?case
  proof (cases "name \<in> TARGETS")
    case False
    with Cons e show ?thesis by simp
  next
    case True
    with Cons.prems e obtain v where
      "rangesLoop es isDev isOpt path
         (results @ [\<lparr>package = name, version = JStr v, dev = isDev, optional = isOpt,
                       source = PackageJson, lockfilePath = path\<rparr>]) = Inr out"
      by (auto simp: and_then_def split: sum.splits)
    moreover have "all_targets (results @ [\<lparr>package = name, version = JStr v, dev = isDev,
        optional = isOpt, source = PackageJson, lockfilePath = path\<rparr>])"
      using True Cons.prems(1) by (simp add: all_targets_def)
    ultimately show ?thesis using Cons.IH by blast
  qed
qed

lemma bucketsLoop_targets:
  "all_targets results \<Longrightarrow> bucketsLoop bs pkgJson path results = Inr out \<Longrightarrow> all_targets out"
proof (induction bs arbitrary: results)
  case Nil
  then show ?case by simp
next
  case (Cons b bs)
  obtain field isDev isOpt where b: "b = (field, isDev, isOpt)" by (cases b)
  from Cons.prems(2) b obtain deps where
    deps: "(if nullish pkgJson then Inr JUndefined else get pkgJson field) = Inr deps"
    by (auto simp: and_then_def split: sum.splits)
  show ?case
  proof (cases "\<not> truthy deps \<or> \<not> typeof_object deps")
    case True
    with Cons.prems b deps have "bucketsLoop bs pkgJson path results = Inr out"
      by (auto simp: and_then_def)
    with Cons.IH Cons.prems(1) show ?thesis by blast
  next
    case False
    with Cons.prems(2) b deps obtain es rs where
      "rangesLoop es isDev isOpt path results = Inr rs"
      "bucketsLoop bs pkgJson path rs = Inr out"
      by (auto simp: and_then_def split: sum.splits)
    with rangesLoop_targets [OF Cons.prems(1)] Cons.IH show ?thesis by blast
  qed
qed

lemma extractFromPackageJson_targets:
  "extractFromPackageJson pkgJson path = Inr rows \<Longrightarrow> all_targets rows"
  using bucketsLoop_targets [of "[]"] by (simp add: extractFromPackageJson_def all_targets_def)


text \<open>
  C1. Whatever the input and the path, every record that a parser emits names a package
  of the target set. \<open>extractFromNpmLock\<close> and \<open>extractFromYarnLockV1\<close> always return
  their records; \<open>extractFromPackageJson\<close> returns them unless the conversion of a
  range to a string throws, and then it emits no record at all.
\<close>

theorem parsers_emit_targets_only:
  "(\<exists>rows. extractFromNpmLock lockJson path = Inr rows
       \<and> (\<forall>r \<in> set rows. package r \<in> TARGETS))
   \<and> (\<forall>r \<in> set (extractFromYarnLockV1 text path). package r \<in> TARGETS)
   \<and> (\<forall>rows. extractFromPackageJson pkgJson path = Inr rows
       \<longrightarrow> (\<forall>r \<in> set rows. package r \<in> TARGETS))"
  using extractFromNpmLock_targets [of lockJson path]
    extractFromYarnLockV1_targets [of "text" path]
    extractFromPackageJson_targets [of pkgJson path]
  by (simp add: all_targets_def)

theorem parsers_emit_targets_only_witness:
  "extractFromNpmLock lock_v2 ''/w/package-lock.json'' = Inr [row_is]
   \<and> package row_is \<in> TARGETS
   \<and> extractFromYarnLockV1 yarn_text ''/w/yarn.lock'' = [row_core]
   \<and> package row_core \<in> TARGETS
   \<and> extractFromPackageJson manifest ''/w/package.json'' = Inr [row_manifest]
   \<and> package row_manifest \<in> TARGETS"
proof -
  have a: "extractFromNpmLock lock_v2 ''/w/package-lock.json'' = Inr [row_is]"
    by code_simp
  have b: "extractFromYarnLockV1 yarn_text ''/w/yarn.lock'' = [row_core]"
    by code_simp
  have c: "extractFromPackageJson manifest ''/w/package.json'' = Inr [row_manifest]"
    by code_simp
  note t = parsers_emit_targets_only [of lock_v2 "''/w/package-lock.json''" yarn_text manifest]
  from t a have "package row_is \<in> TARGETS" by simp
  moreover from parsers_emit_targets_only [of lock_v2 "''/w/yarn.lock''" yarn_text manifest] b
  have "package row_core \<in> TARGETS" by simp
  moreover from parsers_emit_targets_only [of lock_v2 "''/w/package.json''" yarn_text manifest] c
  have "package row_manifest \<in> TARGETS" by simp
  ultimately show ?thesis using a b c by simp
qed

section \<open>Inputs that are no object\<close>

lemma get_primitive_name:
  assumes "primitive v" "\<not> nullish v" "c \<in> set k" "\<not> of_char c < (58::nat)" "k \<noteq> ''length''"
  shows "get v k = Inr JUndefined"
  using assms own_index_non_digit [OF assms(3,4)] by (cases v) auto

lemma packagesBranch_primitive: "primitive v \<Longrightarrow> packagesBranch v path results = Inr results"
proof (cases "truthy v")
  case False
  then show ?thesis by (simp add: packagesBranch_def)
next
  case True
  assume p: "primitive v"
  from True have "\<not> nullish v" by (cases v) auto
  with p have "get v ''packages'' = Inr JUndefined"
    by (intro get_primitive_name [where c = "CHR ''p''"]) simp_all
  then show ?thesis by (simp add: packagesBranch_def and_then_def)
qed

lemma dependenciesBranch_primitive:
  "primitive v \<Longrightarrow> dependenciesBranch v path results = Inr results"
proof (cases "truthy v")
  case False
  then show ?thesis by (simp add: dependenciesBranch_def)
next
  case True
  assume p: "primitive v"
  from True have "\<not> nullish v" by (cases v) auto
  with p have "get v ''dependencies'' = Inr JUndefined"
    by (intro get_primitive_name [where c = "CHR ''d''"]) simp_all
  then show ?thesis by (simp add: dependenciesBranch_def and_then_def)
qed

lemma bucket_primitive:
  assumes "primitive v" "field \<in> fst ` set buckets"
  shows "(if nullish v then Inr JUndefined else get v field) = Inr JUndefined"
proof (cases "nullish v")
  case True
  then show ?thesis by simp
next
  case False
  from assms(2) have "field = ''dependencies'' \<or> field = ''devDependencies''
      \<or> field = ''optionalDependencies''"
    by (auto simp: buckets_def)
  then have "get v field = Inr JUndefined"
    using assms(1) False
    by (auto intro!: get_primitive_name [where c = "CHR ''p''"])
  with False show ?thesis by simp
qed

lemma bucketsLoop_primitive:
  "primitive v \<Longrightarrow> fst ` set bs \<subseteq> fst ` set buckets \<Longrightarrow>
   bucketsLoop bs v path results = Inr results"
proof (induction bs)
  case Nil
  then show ?case by simp
next
  case (Cons b bs)
  obtain field isDev isOpt where b: "b = (field, isDev, isOpt)" by (cases b)
  with Cons.prems have "field \<in> fst ` set buckets" by auto
  from bucket_primitive [OF Cons.prems(1) this]
  have "bucketsLoop (b # bs) v path results = bucketsLoop bs v path results"
    by (simp add: b and_then_def)
  moreover from Cons have "bucketsLoop bs v path results = Inr results" by simp
  ultimately show ?case by simp
qed

text \<open>
  C10. For every top-level input that is no object (\<^verbatim>\<open>null\<close>, \<^verbatim>\<open>undefined\<close>, a number,
  a string, a boolean), \<open>extractFromNpmLock\<close> and \<open>extractFromPackageJson\<close> return the
  empty sequence of records; they do not throw.
\<close>

theorem primitive_inputs_yield_nothing:
  assumes "primitive v"
  shows "extractFromNpmLock v path = Inr [] \<and> extractFromPackageJson v path = Inr []"
  using assms packagesBranch_primitive dependenciesBranch_primitive
    bucketsLoop_primitive [of v buckets]
  by (simp add: extractFromNpmLock_def extractFromPackageJson_def and_then_def)

theorem primitive_inputs_yield_nothing_witness:
  "primitive JNull \<and> extractFromNpmLock JNull ''/w/package-lock.json'' = Inr []
   \<and> extractFromPackageJson JNull ''/w/package.json'' = Inr []
   \<and> primitive (JStr ''text'') \<and> extractFromNpmLock (JStr ''text'') ''/w/package-lock.json'' = Inr []
   \<and> extractFromPackageJson (JStr ''text'') ''/w/package.json'' = Inr []"
  using primitive_inputs_yield_nothing [of JNull]
    primitive_inputs_yield_nothing [of "JStr ''text''"]
  by simp

section \<open>Deduplication\<close>

lemma plain_Cons: "plain (x # xs) \<Longrightarrow> plain xs"
  by (cases xs) (auto simp: plain_def ends_with_def)

lemma plain_split:
  "plain p \<Longrightarrow> plain q \<Longrightarrow> p @ ''::'' @ r = q @ ''::'' @ s \<Longrightarrow> p = q \<and> r = s"
proof (induction p arbitrary: q)
  case Nil
  then show ?case
    by (cases q rule: has_sep.cases) (auto simp: plain_def ends_with_def)
next
  case (Cons x xs)
  show ?case
  proof (cases q)
    case Nil
    with Cons.prems show ?thesis
      by (cases xs) (auto simp: plain_def ends_with_def)
  next
    case (Cons y ys)
    with Cons.prems Cons.IH [of ys] show ?thesis
      by (auto dest: plain_Cons)
  qed
qed

lemma dedupeLoop_keep:
  "\<forall>r \<in> set rows. rowKey r = Inr (kf r) \<Longrightarrow>
   dedupeLoop rows seen out = Inr (out @ keep kf seen rows)"
  by (induction rows arbitrary: seen out) (auto simp: and_then_def)

lemma keep_append:
  "keep kf seen (xs @ ys) = keep kf seen xs @ keep kf (seen \<union> kf ` set xs) ys"
  by (induction xs arbitrary: seen) (auto simp: insert_absorb)

lemma keep_index:
  "keep kf {} rows =
   map (nth rows) (filter (\<lambda>i. kf (rows ! i) \<notin> kf ` set (take i rows)) [0..<length rows])"
proof (induction rows rule: rev_induct)
  case Nil
  show ?case by simp
next
  case (snoc x xs)
  have a: "filter (\<lambda>i. kf ((xs @ [x]) ! i) \<notin> kf ` set (take i (xs @ [x]))) [0..<length xs]
     = filter (\<lambda>i. kf (xs ! i) \<notin> kf ` set (take i xs)) [0..<length xs]"
    by (rule filter_cong) (auto simp: nth_append)
  have b: "map (nth (xs @ [x])) (filter P [0..<length xs]) = map (nth xs) (filter P [0..<length xs])" for P
    by (rule map_cong) (auto simp: nth_append)
  have c: "[0..<length (xs @ [x])] = [0..<length xs] @ [length xs]" by simp
  show ?case
    unfolding c filter_append map_append keep_append snoc.IH a b
    by (simp add: image_Un)
qed


lemma tag_text_inj: "tag_text a = tag_text b \<Longrightarrow> a = b"
  by (cases a; cases b) simp_all

lemma rowKey_plain: "plain_row r \<Longrightarrow> rowKey r = Inr (key_text r)"
  by (auto simp: plain_row_def rowKey_def key_text_def and_then_def split: jsval.splits)

lemma key_text_inj:
  assumes "plain_row a" "plain_row b" "key_text a = key_text b"
  shows "tuple4 a = tuple4 b"
proof -
  from assms(1) obtain va where va: "version a = JStr va" "plain va"
    "plain (lockfilePath a)" "plain (package a)"
    by (auto simp: plain_row_def split: jsval.splits)
  from assms(2) obtain vb where vb: "version b = JStr vb" "plain vb"
    "plain (lockfilePath b)" "plain (package b)"
    by (auto simp: plain_row_def split: jsval.splits)
  from assms(3) have e1: "lockfilePath a @ ''::'' @ (package a @ ''::'' @ va @ ''::'' @ tag_text (source a))
     = lockfilePath b @ ''::'' @ (package b @ ''::'' @ vb @ ''::'' @ tag_text (source b))"
    by (simp add: key_text_def va vb)
  from plain_split [OF va(3) vb(3) e1]
  have p: "lockfilePath a = lockfilePath b"
    and e2: "package a @ ''::'' @ (va @ ''::'' @ tag_text (source a))
      = package b @ ''::'' @ (vb @ ''::'' @ tag_text (source b))"
    by simp_all
  from plain_split [OF va(4) vb(4) e2]
  have n: "package a = package b"
    and e3: "va @ ''::'' @ tag_text (source a) = vb @ ''::'' @ tag_text (source b)"
    by simp_all
  from plain_split [OF va(2) vb(2) e3]
  have "va = vb" "tag_text (source a) = tag_text (source b)"
    by simp_all
  with p n va vb show ?thesis
    by (simp add: tuple4_def tag_text_inj)
qed

lemma tuple4_key_text: "tuple4 a = tuple4 b \<Longrightarrow> key_text a = key_text b"
  by (simp add: tuple4_def key_text_def)

lemma key_tuple_image:
  assumes "\<forall>r \<in> set rows. plain_row r" "i < length rows"
  shows "key_text (rows ! i) \<in> key_text ` set (take i rows)
     \<longleftrightarrow> tuple4 (rows ! i) \<in> tuple4 ` set (take i rows)"
proof -
  have r: "plain_row (rows ! i)" using assms by simp
  have t: "\<And>x. x \<in> set (take i rows) \<Longrightarrow> plain_row x"
    using assms(1) by (meson in_set_takeD)
  show ?thesis
    using r t by (auto dest: key_text_inj tuple4_key_text intro: rev_image_eqI)
qed

text \<open>
  C3 (as amended). For every list of plain records, \<open>dedupeRows\<close> returns the records
  in their order without the dropped ones, and the record at position \<open>i\<close> is dropped
  if and only if an earlier record of the list has the same 4-tuple
  (\<open>lockfilePath\<close>, \<open>package\<close>, \<open>version\<close>, \<open>source\<close>); so the first occurrence of every
  tuple is kept. The flags \<open>dev\<close> and \<open>optional\<close> are no part of the key: of two
  records that differ only in these flags, the second is dropped.
\<close>

theorem dedupeRows_first_occurrence:
  assumes "\<forall>r \<in> set rows. plain_row r"
  shows "dedupeRows rows =
       Inr (map (nth rows)
         (filter (\<lambda>i. tuple4 (rows ! i) \<notin> tuple4 ` set (take i rows)) [0..<length rows]))
     \<and> (\<forall>r d p. plain_row r \<longrightarrow> dedupeRows [r, r\<lparr>dev := d, optional := p\<rparr>] = Inr [r])"
proof
  have "dedupeRows rows = Inr (keep key_text {} rows)"
    using assms dedupeLoop_keep [of rows key_text "{}" "[]"]
    by (simp add: dedupeRows_def rowKey_plain)
  also have "keep key_text {} rows = map (nth rows)
       (filter (\<lambda>i. key_text (rows ! i) \<notin> key_text ` set (take i rows)) [0..<length rows])"
    by (rule keep_index)
  also have "filter (\<lambda>i. key_text (rows ! i) \<notin> key_text ` set (take i rows)) [0..<length rows]
     = filter (\<lambda>i. tuple4 (rows ! i) \<notin> tuple4 ` set (take i rows)) [0..<length rows]"
    by (rule filter_cong) (use assms key_tuple_image in auto)
  finally show "dedupeRows rows =
       Inr (map (nth rows)
         (filter (\<lambda>i. tuple4 (rows ! i) \<notin> tuple4 ` set (take i rows)) [0..<length rows]))" .
next
  show "\<forall>r d p. plain_row r \<longrightarrow> dedupeRows [r, r\<lparr>dev := d, optional := p\<rparr>] = Inr [r]"
    by (auto simp: dedupeRows_def rowKey_def and_then_def plain_row_def split: jsval.splits)
qed

theorem dedupeRows_first_occurrence_witness:
  "plain_row row_is \<and> plain_row (row_is\<lparr>dev := True\<rparr>) \<and> plain_row row_synckit
   \<and> dedupeRows [row_is, row_is\<lparr>dev := True\<rparr>, row_synckit, row_is] = Inr [row_is, row_synckit]
   \<and> dedupeRows [row_synckit, row_synckit\<lparr>dev := False, optional := True\<rparr>] = Inr [row_synckit]"
proof -
  have p: "plain_row row_is" "plain_row (row_is\<lparr>dev := True\<rparr>)" "plain_row row_synckit"
    by (simp_all add: plain_row_def plain_def ends_with_def row_is_def row_synckit_def)
  have h: "\<forall>r \<in> set [row_is, row_is\<lparr>dev := True\<rparr>, row_synckit, row_is]. plain_row r"
    using p by simp
  have u: "[0..<4] = [0, 1, 2, 3]" by (simp add: upt_rec)
  note t = dedupeRows_first_occurrence [OF h]
  from t u have a: "dedupeRows [row_is, row_is\<lparr>dev := True\<rparr>, row_synckit, row_is]
      = Inr [row_is, row_synckit]"
    by (simp add: tuple4_def row_is_def row_synckit_def)
  from t p(3) have b: "dedupeRows [row_synckit, row_synckit\<lparr>dev := False, optional := True\<rparr>]
      = Inr [row_synckit]"
    by blast
  from p a b show ?thesis by blast
qed

text \<open>
  C3 as stated fails: two records that differ only in the flag \<open>dev\<close> are not both
  retained.
\<close>

theorem dedupeRows_flags_counterexample:
  "dev (row_is\<lparr>dev := True\<rparr>) \<noteq> dev row_is
   \<and> dedupeRows [row_is, row_is\<lparr>dev := True\<rparr>] = Inr [row_is]"
  by (simp add: dedupeRows_def rowKey_def row_is_def and_then_def)

text \<open>
  The key is the concatenation of the four fields around \<^verbatim>\<open>::\<close>, so that outside the
  plain records two different tuples can share a key: here a path that contains the
  separator, and a version that does.
\<close>

lemma dedupeRows_separator_collision:
  "tuple4 \<lparr>package = ''is'', version = JStr ''x::is::1'', dev = False, optional = False,
       source = PackageJson, lockfilePath = ''/a''\<rparr>
     \<noteq> tuple4 \<lparr>package = ''is'', version = JStr ''1'', dev = False, optional = False,
       source = PackageJson, lockfilePath = ''/a::is::x''\<rparr>
   \<and> dedupeRows
       [\<lparr>package = ''is'', version = JStr ''x::is::1'', dev = False, optional = False,
           source = PackageJson, lockfilePath = ''/a''\<rparr>,
        \<lparr>package = ''is'', version = JStr ''1'', dev = False, optional = False,
           source = PackageJson, lockfilePath = ''/a::is::x''\<rparr>]
     = Inr [\<lparr>package = ''is'', version = JStr ''x::is::1'', dev = False, optional = False,
           source = PackageJson, lockfilePath = ''/a''\<rparr>]"
  by (simp add: dedupeRows_def rowKey_def and_then_def tuple4_def)

section \<open>The Yarn selectors and the version of a block\<close>

lemma lastIndexOf_absent: "c \<notin> set s \<Longrightarrow> lastIndexOf s c = - 1"
proof -
  assume "c \<notin> set s"
  then have "filter (\<lambda>i. s ! i = c) (rev [0..<length s]) = []"
    by (auto simp: filter_empty_conv)
  then show ?thesis by (simp add: lastIndexOf_def)
qed

lemma lastIndexOf_last:
  assumes "c \<notin> set v"
  shows "lastIndexOf (n @ c # v) c = int (length n)"
proof -
  let ?s = "n @ c # v"
  have len: "length ?s = length n + Suc (length v)" by simp
  have u1: "[0..<length n + Suc (length v)]
      = [0..<length n] @ [length n..<length n + Suc (length v)]"
    by (rule upt_add_eq_append) simp
  have u2: "[length n..<length n + Suc (length v)]
      = length n # [Suc (length n)..<length n + Suc (length v)]"
    by (rule upt_conv_Cons) simp
  have u: "[0..<length ?s] = [0..<length n] @ [length n] @ [Suc (length n)..<length ?s]"
    by (simp only: len u1 u2 append_Cons append_Nil)
  have ne: "?s ! i \<noteq> c" if "Suc (length n) \<le> i" "i < length ?s" for i
  proof -
    from that(1) obtain k where "i = Suc (length n) + k"
      using le_Suc_ex by blast
    then have i: "i = length n + Suc k" by simp
    have "?s ! i = (c # v) ! Suc k"
      unfolding i by (rule nth_append_length_plus)
    then have e: "?s ! i = v ! k" by simp
    from that(2) i have "k < length v" by simp
    then have "v ! k \<in> set v" by (rule nth_mem)
    with assms e show ?thesis by metis
  qed
  have "\<forall>i \<in> set [Suc (length n)..<length ?s]. \<not> ?s ! i = c"
  proof
    fix i
    assume "i \<in> set [Suc (length n)..<length ?s]"
    then have "Suc (length n) \<le> i" "i < length ?s"
      by (simp_all only: set_upt atLeastLessThan_iff)
    then show "\<not> ?s ! i = c" by (rule ne)
  qed
  then have t: "filter (\<lambda>i. ?s ! i = c) [Suc (length n)..<length ?s] = []"
    by (simp only: filter_empty_conv)
  have "filter (\<lambda>i. ?s ! i = c) (rev [0..<length ?s])
      = rev (filter (\<lambda>i. ?s ! i = c) [0..<length ?s])"
    by (simp only: rev_filter)
  also have "filter (\<lambda>i. ?s ! i = c) [0..<length ?s]
      = filter (\<lambda>i. ?s ! i = c) [0..<length n] @ [length n]"
    unfolding u filter_append t
    by (simp only: filter.simps nth_append_length append_Nil2 simp_thms if_True)
  finally have "filter (\<lambda>i. ?s ! i = c) (rev [0..<length ?s])
      = length n # rev (filter (\<lambda>i. ?s ! i = c) [0..<length n])"
    by (simp only: rev_append rev.simps append_Nil append_Cons)
  then show ?thesis unfolding lastIndexOf_def by (simp only: list.case)
qed

lemma last_at_unique:
  "m @ c # w = n @ c # v \<Longrightarrow> c \<notin> set w \<Longrightarrow> c \<notin> set v \<Longrightarrow> m = n \<and> w = v"
proof (induction m arbitrary: n)
  case Nil
  then show ?case by (cases n) auto
next
  case (Cons x m)
  then show ?case by (cases n) auto
qed

lemma selectorToPkgName_Some:
  "selectorToPkgName sel = Some n \<longleftrightarrow>
     n \<noteq> [] \<and> (\<exists>v. strip_quotes sel = n @ CHR ''@'' # v \<and> CHR ''@'' \<notin> set v)"
proof (cases "CHR ''@'' \<in> set (strip_quotes sel)")
  case False
  then have "\<And>v. strip_quotes sel \<noteq> n @ CHR ''@'' # v"
    by (metis in_set_conv_decomp)
  with False show ?thesis
    by (simp add: selectorToPkgName_def lastIndexOf_absent)
next
  case True
  then obtain m w where s: "strip_quotes sel = m @ CHR ''@'' # w" "CHR ''@'' \<notin> set w"
    by (meson split_list_last)
  have uniq: "m = n \<and> w = v" if "strip_quotes sel = n @ CHR ''@'' # v" "CHR ''@'' \<notin> set v" for v
  proof -
    from that s have "m @ CHR ''@'' # w = n @ CHR ''@'' # v" by simp
    with s(2) that(2) show ?thesis
      by (rule_tac last_at_unique) auto
  qed
  have r: "selectorToPkgName sel = (if m = [] then None else Some m)"
    by (simp add: selectorToPkgName_def s lastIndexOf_last)
  show ?thesis
  proof
    assume "selectorToPkgName sel = Some n"
    with r have "m \<noteq> []" "m = n" by (auto split: if_splits)
    with s show "n \<noteq> [] \<and> (\<exists>v. strip_quotes sel = n @ CHR ''@'' # v \<and> CHR ''@'' \<notin> set v)"
      by blast
  next
    assume a: "n \<noteq> [] \<and> (\<exists>v. strip_quotes sel = n @ CHR ''@'' # v \<and> CHR ''@'' \<notin> set v)"
    then obtain v where "strip_quotes sel = n @ CHR ''@'' # v" "CHR ''@'' \<notin> set v" by blast
    from uniq [OF this] have "m = n" by simp
    with a r show "selectorToPkgName sel = Some n" by simp
  qed
qed

lemma strip_quotes_decomp:
  "\<exists>a b. sel = a @ strip_quotes sel @ b \<and> set a \<subseteq> {dquote} \<and> set b \<subseteq> {dquote}"
proof -
  let ?q = "\<lambda>c. c = dquote"
  let ?m = "dropWhile ?q sel"
  have 1: "takeWhile ?q sel @ ?m = sel" by simp
  have 2: "?m = strip_quotes sel @ rev (takeWhile ?q (rev ?m))"
  proof -
    have "rev ?m = takeWhile ?q (rev ?m) @ dropWhile ?q (rev ?m)" by simp
    then have "rev (rev ?m) = rev (takeWhile ?q (rev ?m) @ dropWhile ?q (rev ?m))" by simp
    then show ?thesis unfolding strip_quotes_def by (simp only: rev_rev_ident rev_append)
  qed
  have 3: "set (takeWhile ?q sel) \<subseteq> {dquote}" by (auto dest: set_takeWhileD)
  have 4: "set (rev (takeWhile ?q (rev ?m))) \<subseteq> {dquote}" by (auto dest: set_takeWhileD)
  from 2 have "takeWhile ?q sel @ ?m
      = takeWhile ?q sel @ strip_quotes sel @ rev (takeWhile ?q (rev ?m))" by (rule arg_cong)
  with 1 have 5: "sel = takeWhile ?q sel @ strip_quotes sel @ rev (takeWhile ?q (rev ?m))"
    by (simp only:)
  from 3 4 5 show ?thesis by blast
qed

lemma strip_quotes_ends:
  assumes "strip_quotes sel \<noteq> []"
  shows "hd (strip_quotes sel) \<noteq> dquote \<and> last (strip_quotes sel) \<noteq> dquote"
proof -
  let ?q = "\<lambda>c. c = dquote"
  let ?m = "dropWhile ?q sel"
  let ?d = "dropWhile ?q (rev ?m)"
  have s: "strip_quotes sel = rev ?d" by (simp add: strip_quotes_def)
  with assms have d: "?d \<noteq> []" by simp
  then have "\<not> ?q (hd ?d)" by (rule hd_dropWhile)
  moreover from d have "last (rev ?d) = hd ?d" by (simp add: last_rev)
  ultimately have l: "last (strip_quotes sel) \<noteq> dquote" using s by simp
  have "rev ?m = takeWhile ?q (rev ?m) @ ?d" by simp
  then have "rev (rev ?m) = rev (takeWhile ?q (rev ?m) @ ?d)" by (rule arg_cong)
  then have m: "?m = strip_quotes sel @ rev (takeWhile ?q (rev ?m))"
    using s by (simp only: rev_rev_ident rev_append)
  with assms have "?m \<noteq> []" by (metis append_is_Nil_conv)
  then have "\<not> ?q (hd ?m)" by (rule hd_dropWhile)
  moreover from m assms have "hd ?m = hd (strip_quotes sel)" by (metis hd_append2)
  ultimately show ?thesis using l by simp
qed

lemma selectorToPkgName_None:
  assumes "CHR ''@'' \<notin> set (strip_quotes sel)
     \<or> (\<exists>v. strip_quotes sel = CHR ''@'' # v \<and> CHR ''@'' \<notin> set v)"
  shows "selectorToPkgName sel = None"
proof (cases "CHR ''@'' \<in> set (strip_quotes sel)")
  case False
  then show ?thesis by (simp add: selectorToPkgName_def lastIndexOf_absent)
next
  case True
  with assms obtain v where v: "strip_quotes sel = [] @ CHR ''@'' # v" "CHR ''@'' \<notin> set v"
    by auto
  from lastIndexOf_last [OF v(2), of "[]"] v(1) show ?thesis
    by (simp add: selectorToPkgName_def)
qed

text \<open>
  C5. The derived name of a selector is the text before the last \<^verbatim>\<open>@\<close> of the selector
  stripped of its wrapping quotes, and it exists only when that text is not empty: a
  selector without \<^verbatim>\<open>@\<close>, or whose only \<^verbatim>\<open>@\<close> is its first character, derives no name
  and yields no record. The selector \<^verbatim>\<open>@pkgr/core@^1.0.0\<close> derives \<^verbatim>\<open>@pkgr/core\<close>, the
  block of the specification yields its record with version \<^verbatim>\<open>1.2.3\<close>, and the header
  \<^verbatim>\<open>@invalid:\<close> yields no record.
\<close>

theorem selectorToPkgName_last_at:
  "(selectorToPkgName sel = Some n \<longleftrightarrow>
       n \<noteq> [] \<and> (\<exists>v. strip_quotes sel = n @ CHR ''@'' # v \<and> CHR ''@'' \<notin> set v))
   \<and> (CHR ''@'' \<notin> set (strip_quotes sel)
         \<or> (\<exists>v. strip_quotes sel = CHR ''@'' # v \<and> CHR ''@'' \<notin> set v)
       \<longrightarrow> selectorToPkgName sel = None \<and> selectorRows ver path sel = [])
   \<and> (\<exists>a b. sel = a @ strip_quotes sel @ b \<and> set a \<subseteq> {dquote} \<and> set b \<subseteq> {dquote})
   \<and> (strip_quotes sel \<noteq> []
       \<longrightarrow> hd (strip_quotes sel) \<noteq> dquote \<and> last (strip_quotes sel) \<noteq> dquote)
   \<and> selectorToPkgName ''@pkgr/core@^1.0.0'' = Some ''@pkgr/core''
   \<and> extractFromYarnLockV1 core_block path = [yarnRow ''1.2.3'' path ''@pkgr/core'']
   \<and> selectorToPkgName ''@invalid'' = None
   \<and> extractFromYarnLockV1 ''@invalid:'' path = []"
proof -
  have 1: "selectorToPkgName ''@pkgr/core@^1.0.0'' = Some ''@pkgr/core''" by code_simp
  have 2: "extractFromYarnLockV1 core_block path = [yarnRow ''1.2.3'' path ''@pkgr/core'']"
    by code_simp
  have 3: "selectorToPkgName ''@invalid'' = None" by code_simp
  have 4: "extractFromYarnLockV1 ''@invalid:'' path = []" by code_simp
  have 5: "selectorToPkgName sel = None \<Longrightarrow> selectorRows ver path sel = []"
    by (simp add: selectorRows_def)
  from selectorToPkgName_Some [of sel n] selectorToPkgName_None [of sel]
    strip_quotes_decomp [of sel] strip_quotes_ends [of sel] 1 2 3 4 5
  show ?thesis by blast
qed

theorem selectorToPkgName_last_at_witness:
  "CHR ''@'' \<notin> set (strip_quotes ''lodash'')
   \<and> selectorToPkgName ''lodash'' = None
   \<and> selectorRows ''4.17.21'' ''/w/yarn.lock'' ''lodash'' = []
   \<and> strip_quotes (dquote # ''is@^3.0.0'' @ [dquote]) = ''is'' @ CHR ''@'' # ''^3.0.0''
   \<and> selectorToPkgName (dquote # ''is@^3.0.0'' @ [dquote]) = Some ''is''
   \<and> hd (strip_quotes (dquote # ''is@^3.0.0'' @ [dquote])) \<noteq> dquote"
proof -
  have a: "CHR ''@'' \<notin> set (strip_quotes ''lodash'')" by code_simp
  have b: "strip_quotes (dquote # ''is@^3.0.0'' @ [dquote]) = ''is'' @ CHR ''@'' # ''^3.0.0''"
    by code_simp
  have c: "CHR ''@'' \<notin> set ''^3.0.0''" by simp
  have d: "''is'' \<noteq> []" by simp
  from selectorToPkgName_last_at [of "''lodash''" "[]" "''4.17.21''" "''/w/yarn.lock''"] a
  have e: "selectorToPkgName ''lodash'' = None
      \<and> selectorRows ''4.17.21'' ''/w/yarn.lock'' ''lodash'' = []"
    by blast
  from selectorToPkgName_last_at [of "dquote # ''is@^3.0.0'' @ [dquote]" "''is''"] b c d
  have f: "selectorToPkgName (dquote # ''is@^3.0.0'' @ [dquote]) = Some ''is''"
    by blast
  from b have "strip_quotes (dquote # ''is@^3.0.0'' @ [dquote]) \<noteq> []" by simp
  with selectorToPkgName_last_at [of "dquote # ''is@^3.0.0'' @ [dquote]" "''is''"]
  have g: "hd (strip_quotes (dquote # ''is@^3.0.0'' @ [dquote])) \<noteq> dquote"
    by blast
  from a b e f g show ?thesis by blast
qed
















section \<open>The manifest parser\<close>

lemma and_then_Inr [simp]: "and_then (Inr x) f = f x"
  by (simp add: and_then_def)

lemma and_then_Inl [simp]: "and_then (Inl e) f = Inl e"
  by (simp add: and_then_def)

lemma and_then_assoc:
  "and_then (and_then m f) g = and_then m (\<lambda>x. and_then (f x) g)"
  by (cases m) simp_all

lemma sequence_append:
  "sequence (xs @ ys) =
   and_then (sequence xs) (\<lambda>a. and_then (sequence ys) (\<lambda>b. Inr (a @ b)))"
proof (induction xs)
  case Nil
  show ?case by (cases "sequence ys") simp_all
next
  case (Cons x xs)
  show ?case
  proof (cases x)
    case (Inl e)
    then show ?thesis by simp
  next
    case (Inr a)
    then show ?thesis
      by (cases "sequence xs"; cases "sequence ys") (simp_all add: Cons.IH)
  qed
qed

lemma spec_range_version_js_or: "toString (js_or rng (JStr [])) = spec_range_version rng"
  by (simp add: js_or_def spec_range_version_def)

lemma rangesLoop_sequence:
  "rangesLoop es isDev isOpt path results =
   and_then (sequence (map (spec_manifest_row path)
       (map (\<lambda>(name, rng). (name, rng, isDev, isOpt))
         (filter (\<lambda>(name, rng). name \<in> TARGETS) es))))
     (\<lambda>rs. Inr (results @ rs))"
proof (induction es arbitrary: results)
  case Nil
  show ?case by simp
next
  case (Cons e es)
  obtain name rng where e: "e = (name, rng)" by (cases e)
  show ?case
  proof (cases "name \<in> TARGETS")
    case False
    with Cons e show ?thesis by simp
  next
    case True
    show ?thesis
    proof (cases "spec_range_version rng")
      case (Inl x)
      with True e show ?thesis by (simp add: spec_range_version_js_or spec_manifest_row_def)
    next
      case (Inr v)
      let ?r = "\<lparr>package = name, version = JStr v, dev = isDev, optional = isOpt,
               source = PackageJson, lockfilePath = path\<rparr>"
      let ?rest = "sequence (map (spec_manifest_row path)
         (map (\<lambda>(name, rng). (name, rng, isDev, isOpt))
           (filter (\<lambda>(name, rng). name \<in> TARGETS) es)))"
      from True e Inr have "rangesLoop (e # es) isDev isOpt path results
          = rangesLoop es isDev isOpt path (results @ [?r])"
        by (simp add: spec_range_version_js_or)
      also have "\<dots> = and_then ?rest (\<lambda>rs. Inr ((results @ [?r]) @ rs))"
        by (rule Cons.IH)
      also have "\<dots> = and_then (sequence (map (spec_manifest_row path)
         (map (\<lambda>(name, rng). (name, rng, isDev, isOpt))
           (filter (\<lambda>(name, rng). name \<in> TARGETS) (e # es)))))
          (\<lambda>rs. Inr (results @ rs))"
        using True e Inr by (cases ?rest) (simp_all add: spec_manifest_row_def)
      finally show ?thesis .
    qed
  qed
qed

lemma get_js_get: "\<not> nullish v \<Longrightarrow> get v k = Inr (js_get v k)"
  by (cases v) (simp_all add: js_get_def)

lemma entries_entries_of: "truthy v \<Longrightarrow> entries v = Inr (entries_of v)"
  by (cases v) (simp_all add: entries_of_def)

lemma bucketsLoop_sequence:
  "bucketsLoop bs pkgJson path results =
   and_then (sequence (map (spec_manifest_row path) (spec_target_ranges pkgJson bs)))
     (\<lambda>rs. Inr (results @ rs))"
proof (induction bs arbitrary: results)
  case Nil
  show ?case by (simp add: spec_target_ranges_def)
next
  case (Cons b bs)
  obtain field isDev isOpt where b: "b = (field, isDev, isOpt)" by (cases b)
  let ?deps = "if nullish pkgJson then JUndefined else js_get pkgJson field"
  let ?here = "map (\<lambda>(name, rng). (name, rng, isDev, isOpt))
         (filter (\<lambda>(name, rng). name \<in> TARGETS) (spec_field_entries pkgJson field))"
  have g: "(if nullish pkgJson then Inr JUndefined else get pkgJson field) = Inr ?deps"
    by (simp add: get_js_get)
  have t: "spec_target_ranges pkgJson (b # bs) = ?here @ spec_target_ranges pkgJson bs"
    by (simp add: spec_target_ranges_def b)
  show ?case
  proof (cases "truthy ?deps \<and> typeof_object ?deps")
    case False
    then have "spec_field_entries pkgJson field = []" by (auto simp: spec_field_entries_def Let_def)
    with False b g t Cons.IH [of results] show ?thesis by auto
  next
    case True
    then have fe: "spec_field_entries pkgJson field = entries_of ?deps"
      by (simp add: spec_field_entries_def Let_def)
    from True have en: "entries ?deps = Inr (entries_of ?deps)"
      by (intro entries_entries_of) simp
    have "bucketsLoop (b # bs) pkgJson path results
        = and_then (rangesLoop (entries_of ?deps) isDev isOpt path results)
            (\<lambda>results'. bucketsLoop bs pkgJson path results')"
      using True g en by (simp add: b)
    also have "\<dots> = and_then (and_then (sequence (map (spec_manifest_row path) ?here))
           (\<lambda>rs. Inr (results @ rs)))
         (\<lambda>results'. and_then (sequence (map (spec_manifest_row path) (spec_target_ranges pkgJson bs)))
           (\<lambda>rs. Inr (results' @ rs)))"
      by (simp add: rangesLoop_sequence fe Cons.IH)
    also have "\<dots> = and_then (sequence (map (spec_manifest_row path) (?here @ spec_target_ranges pkgJson bs)))
           (\<lambda>rs. Inr (results @ rs))"
      by (cases "sequence (map (spec_manifest_row path) ?here)";
          cases "sequence (map (spec_manifest_row path) (spec_target_ranges pkgJson bs))")
         (simp_all add: sequence_append)
    finally show ?thesis by (simp only: t)
  qed
qed

text \<open>
  C8 (as amended). \<open>extractFromPackageJson\<close> examines the three fields \<^verbatim>\<open>dependencies\<close>
  (dev false, optional false), \<^verbatim>\<open>devDependencies\<close> (dev true, optional false) and
  \<^verbatim>\<open>optionalDependencies\<close> (dev false, optional true), in this order. A field that is
  missing or no object contributes nothing. For every entry of a present field whose
  name is a target it emits one record with source \<^verbatim>\<open>package-json\<close>, the flags of the
  field, and the version \<^verbatim>\<open>String(range || '')\<close>: the range coerced to a string when the
  range is truthy, the empty string when it is falsy (\<^verbatim>\<open>null\<close>, \<^verbatim>\<open>false\<close>, \<^verbatim>\<open>0\<close>, the
  empty string). When the coercion of such a range throws, the parser throws.
\<close>

theorem extractFromPackageJson_buckets:
  "extractFromPackageJson pkgJson path
     = sequence (map (spec_manifest_row path) (spec_target_ranges pkgJson buckets))
   \<and> map fst buckets = [''dependencies'', ''devDependencies'', ''optionalDependencies'']
   \<and> (spec_range_version rng = Inr [] \<longleftrightarrow> \<not> truthy rng \<or> toString rng = Inr [])
   \<and> (truthy rng \<longrightarrow> spec_range_version rng = toString rng)
   \<and> extractFromPackageJson manifest ''/w/package.json'' = Inr [row_manifest]"
proof -
  have "extractFromPackageJson pkgJson path
      = sequence (map (spec_manifest_row path) (spec_target_ranges pkgJson buckets))"
    unfolding extractFromPackageJson_def bucketsLoop_sequence
    by (cases "sequence (map (spec_manifest_row path) (spec_target_ranges pkgJson buckets))") simp_all
  moreover have "map fst buckets = [''dependencies'', ''devDependencies'', ''optionalDependencies'']"
    by (simp add: buckets_def)
  moreover have "spec_range_version rng = Inr [] \<longleftrightarrow> \<not> truthy rng \<or> toString rng = Inr []"
    by (simp add: spec_range_version_def)
  moreover have "truthy rng \<longrightarrow> spec_range_version rng = toString rng"
    by (simp add: spec_range_version_def)
  moreover have "extractFromPackageJson manifest ''/w/package.json'' = Inr [row_manifest]"
    by code_simp
  ultimately show ?thesis by blast
qed

theorem extractFromPackageJson_buckets_witness:
  "extractFromPackageJson manifest_all ''/w/package.json''
     = Inr [manifestRecord ''is'' [] False False,
            manifestRecord ''synckit'' ''^0.10.0'' True False,
            manifestRecord ''got-fetch'' [] False True]
   \<and> \<not> truthy JNull \<and> spec_range_version JNull = Inr []
   \<and> truthy (JStr ''^0.10.0'') \<and> spec_range_version (JStr ''^0.10.0'') = Inr ''^0.10.0''"
proof -
  have a: "sequence (map (spec_manifest_row ''/w/package.json'') (spec_target_ranges manifest_all buckets))
     = Inr [manifestRecord ''is'' [] False False,
            manifestRecord ''synckit'' ''^0.10.0'' True False,
            manifestRecord ''got-fetch'' [] False True]"
    by code_simp
  have b: "\<not> truthy JNull" "truthy (JStr ''^0.10.0'')"
    "toString (JStr ''^0.10.0'') = Inr ''^0.10.0''"
    by simp_all
  from extractFromPackageJson_buckets [of manifest_all "''/w/package.json''" JNull] a b
  have 1: "extractFromPackageJson manifest_all ''/w/package.json''
     = Inr [manifestRecord ''is'' [] False False,
            manifestRecord ''synckit'' ''^0.10.0'' True False,
            manifestRecord ''got-fetch'' [] False True]"
    and 2: "spec_range_version JNull = Inr []"
    by simp_all
  from extractFromPackageJson_buckets [of manifest_all "''/w/package.json''"
      "JStr ''^0.10.0''"] b
  have 3: "spec_range_version (JStr ''^0.10.0'') = Inr ''^0.10.0''" by simp
  from 1 2 3 b show ?thesis by simp
qed

text \<open>
  C8 as stated fails. The range \<^verbatim>\<open>""\<close> is neither absent nor nullish, and the version is
  the empty string; the range \<^verbatim>\<open>false\<close> is not nullish and coerces to \<^verbatim>\<open>"false"\<close>, and
  the version is the empty string.
\<close>

theorem manifest_version_counterexample:
  "\<not> nullish (JStr [])
   \<and> extractFromPackageJson (JObj [(''dependencies'', JObj [(''is'', JStr [])])])
         ''/w/package.json'' = Inr [manifestRecord ''is'' [] False False]
   \<and> \<not> nullish (JBool False)
   \<and> toString (JBool False) = Inr ''false''
   \<and> extractFromPackageJson (JObj [(''dependencies'', JObj [(''is'', JBool False)])])
         ''/w/package.json'' = Inr [manifestRecord ''is'' [] False False]"
  by code_simp

section \<open>The npm lock parser\<close>

text \<open>The pieces of a split, joined by the separator, give the text back.\<close>

lemma split_acc_nonempty: "split_acc sep acc s \<noteq> []"
  by (induction sep acc s rule: split_acc.induct) auto

lemma join_with_Cons: "ys \<noteq> [] \<Longrightarrow> join_with sep (x # ys) = x @ sep @ join_with sep ys"
  by (cases ys) simp_all

lemma split_acc_join:
  "sep \<noteq> [] \<Longrightarrow> join_with sep (split_acc sep acc s) = rev acc @ s"
proof (induction sep acc s rule: split_acc.induct)
  case (1 sep acc)
  show ?case by simp
next
  case (2 sep acc c cs)
  show ?case
  proof (cases "take (length sep) (c # cs) = sep")
    case False
    with 2 show ?thesis by simp
  next
    case True
    from "2.prems" obtain n where n: "length sep = Suc n" by (cases sep) auto
    have "c # cs = take (length sep) (c # cs) @ drop (length sep) (c # cs)" by simp
    with True n have e: "c # cs = sep @ drop n cs" by simp
    from True "2.IH"(1) "2.prems" n
    have "join_with sep (split_acc sep [] (drop n cs)) = drop n cs" by simp
    with True n split_acc_nonempty [of sep "[]" "drop n cs"]
    have "join_with sep (split_acc sep acc (c # cs)) = rev acc @ sep @ drop n cs"
      by (simp add: join_with_Cons)
    with e show ?thesis by simp
  qed
qed

lemma split_on_join: "sep \<noteq> [] \<Longrightarrow> join_with sep (split_on sep s) = s"
  by (simp add: split_on_def split_acc_join)

lemma npmRow_npmRecord:
  "\<not> nullish info \<Longrightarrow> npmRow name info path = Inr (npmRecord name info path)"
  by (simp add: npmRow_def npmRecord_def get_js_get js_or_def is_true_def)

lemma truthy_not_nullish: "truthy v \<Longrightarrow> \<not> nullish v"
  by (cases v) simp_all








lemma depsLoop_spec:
  "depsLoop es path stack results = Inr (stack @ pushed es, results @ direct path es)"
proof (induction es arbitrary: stack results)
  case Nil
  show ?case by (simp add: pushed_def direct_def)
next
  case (Cons e es)
  obtain name meta where e: "e = (name, meta)" by (cases e)
  show ?case
  proof (cases "truthy meta")
    case False
    with Cons [of stack results] e show ?thesis by (simp add: pushed_def direct_def)
  next
    case True
    then have nn: "\<not> nullish meta" by (rule truthy_not_nullish)
    let ?d = "js_get meta ''dependencies''"
    let ?rs = "if name \<in> TARGETS then results @ [npmRecord name meta path] else results"
    let ?st = "if truthy ?d then stack @ [?d] else stack"
    have "depsLoop (e # es) path stack results = depsLoop es path ?st ?rs"
      using True e nn by (simp add: npmRow_npmRecord get_js_get)
    also have "\<dots> = Inr (?st @ pushed es, ?rs @ direct path es)" by (rule Cons)
    also have "?st @ pushed es = stack @ pushed (e # es)"
      using True e by (simp add: pushed_def)
    also have "?rs @ direct path es = results @ direct path (e # es)"
      using True e by (simp add: direct_def)
    finally show ?thesis .
  qed
qed

lemma pushed_truthy: "\<forall>d \<in> set (pushed es). truthy d"
  by (auto simp: pushed_def)

lemma tree_rows_append: "tree_rows path (xs @ ys) = tree_rows path xs + tree_rows path ys"
  by (simp add: tree_rows_def)

lemma node_rows_entries:
  "mset (map (\<lambda>(name, meta). npmRecord name meta path)
      (filter (\<lambda>(name, meta). name \<in> TARGETS)
        (concat (map (\<lambda>(name, meta).
           if truthy meta
           then (name, meta) #
                (if truthy (js_get meta ''dependencies'')
                 then nodes (js_get meta ''dependencies'') else [])
           else []) es))))
   = mset (direct path es) + tree_rows path (pushed es)"
proof (induction es)
  case Nil
  show ?case by (simp add: direct_def pushed_def tree_rows_def)
next
  case (Cons e es)
  obtain name meta where e: "e = (name, meta)" by (cases e)
  have d: "direct path (e # es) = direct path [e] @ direct path es"
    by (simp add: direct_def)
  have p: "pushed (e # es) = pushed [e] @ pushed es"
    by (simp add: pushed_def)
  have "mset (map (\<lambda>(name, meta). npmRecord name meta path)
      (filter (\<lambda>(name, meta). name \<in> TARGETS)
        (if truthy meta
           then (name, meta) #
                (if truthy (js_get meta ''dependencies'')
                 then nodes (js_get meta ''dependencies'') else [])
           else [])))
     = mset (direct path [e]) + tree_rows path (pushed [e])"
    by (simp add: e direct_def pushed_def tree_rows_def node_rows_def)
  with Cons show ?case
    unfolding d p tree_rows_append by (simp add: e)
qed

lemma node_rows_unfold:
  "mset (node_rows path deps)
     = mset (direct path (entries_of deps)) + tree_rows path (pushed (entries_of deps))"
  unfolding node_rows_def
  by (subst nodes.simps) (rule node_rows_entries)

lemma stackLoop_spec:
  "\<forall>v \<in> set stack. truthy v \<Longrightarrow>
   \<exists>out. stackLoop stack path results = Inr (results @ out) \<and> mset out = tree_rows path stack"
proof (induction stack path results rule: stackLoop.induct)
  case (1 stack path results)
  show ?case
  proof (cases "stack = []")
    case True
    then show ?thesis by (simp add: stackLoop.simps tree_rows_def)
  next
    case False
    with "1.prems" have tl: "truthy (last stack)" by simp
    let ?es = "entries_of (last stack)"
    let ?st = "butlast stack @ pushed ?es"
    let ?rs = "results @ direct path ?es"
    have es: "entries (last stack) = Inr ?es" using tl by (rule entries_entries_of)
    have d: "depsLoop ?es path (butlast stack) results = Inr (?st, ?rs)"
      by (rule depsLoop_spec)
    have "\<forall>v \<in> set ?st. truthy v"
      using "1.prems" pushed_truthy by (auto dest: in_set_butlastD)
    from "1.IH" [OF False es d refl this] obtain out where
      o: "stackLoop ?st path ?rs = Inr (?rs @ out)" "mset out = tree_rows path ?st"
      by blast
    have s: "stackLoop stack path results = stackLoop ?st path ?rs"
      using False es d by (subst stackLoop.simps) simp
    have "stack = butlast stack @ [last stack]" using False by simp
    then have "tree_rows path stack
        = tree_rows path (butlast stack) + mset (node_rows path (last stack))"
      by (metis (no_types, lifting) tree_rows_append tree_rows_def list.simps(8,9)
          sum_list.Cons sum_list.Nil add.right_neutral)
    with o(2) have "mset (direct path ?es @ out) = tree_rows path stack"
      by (simp add: node_rows_unfold tree_rows_append)
    with s o(1) show ?thesis by auto
  qed
qed

lemma dependenciesBranch_spec:
  "\<exists>r2. dependenciesBranch lockJson path results = Inr (results @ r2)
     \<and> (truthy lockJson \<and> truthy (js_get lockJson ''dependencies'')
            \<and> typeof_object (js_get lockJson ''dependencies'')
          \<longrightarrow> mset r2 = mset (node_rows path (js_get lockJson ''dependencies'')))
     \<and> (\<not> (truthy lockJson \<and> truthy (js_get lockJson ''dependencies'')
            \<and> typeof_object (js_get lockJson ''dependencies''))
          \<longrightarrow> r2 = [])"
proof (cases "truthy lockJson \<and> truthy (js_get lockJson ''dependencies'')
    \<and> typeof_object (js_get lockJson ''dependencies'')")
  case False
  then have "dependenciesBranch lockJson path results = Inr results"
    by (cases "truthy lockJson")
      (auto simp: dependenciesBranch_def get_js_get truthy_not_nullish)
  with False show ?thesis by (intro exI [of _ "[]"]) auto
next
  case True
  let ?deps = "js_get lockJson ''dependencies''"
  from True have "\<forall>v \<in> set [?deps]. truthy v" by simp
  from stackLoop_spec [OF this, of path results] obtain out where
    "stackLoop [?deps] path results = Inr (results @ out)" "mset out = tree_rows path [?deps]"
    by blast
  with True show ?thesis
    by (auto simp: dependenciesBranch_def get_js_get truthy_not_nullish tree_rows_def)
qed



text \<open>
  C7. For a lock whose \<^verbatim>\<open>dependencies\<close> field is an object, the v1 branch emits exactly
  one record for every node of the dependency tree, at any depth, whose name is a
  target (the order is that of the stack). These records are appended to those of the
  \<^verbatim>\<open>packages\<close> branch: both branches are scanned. The nested \<^verbatim>\<open>is\<close> of the example is
  discovered.
\<close>

theorem dependencies_tree_traversed:
  assumes "truthy lockJson" "truthy (js_get lockJson ''dependencies'')"
    "typeof_object (js_get lockJson ''dependencies'')"
  shows "(\<exists>r1 r2. packagesBranch lockJson path [] = Inr r1
       \<and> extractFromNpmLock lockJson path = Inr (r1 @ r2)
       \<and> mset r2 = mset (node_rows path (js_get lockJson ''dependencies''))
       \<and> (\<forall>(name, meta) \<in> set (nodes (js_get lockJson ''dependencies'')).
             name \<in> TARGETS \<longrightarrow> npmRecord name meta path \<in> set r2))
     \<and> extractFromNpmLock lock_nested path
          = Inr [\<lparr>package = ''is'', version = JStr ''2.0.0'', dev = False, optional = False,
                  source = NpmLock, lockfilePath = path\<rparr>]"
proof -
  let ?deps = "js_get lockJson ''dependencies''"
  from packagesBranch_targets [of "[]" lockJson path] obtain r1 where
    r1: "packagesBranch lockJson path [] = Inr r1"
    by (auto simp: all_targets_def)
  from dependenciesBranch_spec [of lockJson path r1] assms obtain r2 where
    r2: "dependenciesBranch lockJson path r1 = Inr (r1 @ r2)"
    "mset r2 = mset (node_rows path ?deps)"
    by blast
  have e: "extractFromNpmLock lockJson path = Inr (r1 @ r2)"
    using r1 r2(1) by (simp add: extractFromNpmLock_def)
  from r2(2) have "set r2 = set (node_rows path ?deps)" by (rule mset_eq_setD)
  then have m: "\<forall>(name, meta) \<in> set (nodes ?deps).
      name \<in> TARGETS \<longrightarrow> npmRecord name meta path \<in> set r2"
    by (force simp: node_rows_def)
  have x: "extractFromNpmLock lock_nested path
          = Inr [\<lparr>package = ''is'', version = JStr ''2.0.0'', dev = False, optional = False,
                  source = NpmLock, lockfilePath = path\<rparr>]"
    by code_simp
  from r1 e r2(2) m x show ?thesis by blast
qed

theorem dependencies_tree_traversed_witness:
  "truthy lock_both \<and> truthy (js_get lock_both ''dependencies'')
   \<and> typeof_object (js_get lock_both ''dependencies'')
   \<and> extractFromNpmLock lock_both ''/w/package-lock.json''
       = Inr ([lockRecord ''is'' ''3.3.0'' True False, lockRecord ''synckit'' [] False True]
              @ [lockRecord ''synckit'' ''0.11.8'' False False, lockRecord ''is'' ''2.0.0'' False False])
   \<and> mset [lockRecord ''synckit'' ''0.11.8'' False False, lockRecord ''is'' ''2.0.0'' False False]
       = mset (node_rows ''/w/package-lock.json'' (js_get lock_both ''dependencies''))
   \<and> (''is'', JObj [(''version'', JStr ''2.0.0'')]) \<in> set (nodes (js_get lock_both ''dependencies''))
   \<and> ''is'' \<in> TARGETS"
proof -
  let ?p = "''/w/package-lock.json''"
  have a: "truthy lock_both" "truthy (js_get lock_both ''dependencies'')"
    "typeof_object (js_get lock_both ''dependencies'')"
    by code_simp+
  have b: "packagesBranch lock_both ?p []
       = Inr [lockRecord ''is'' ''3.3.0'' True False, lockRecord ''synckit'' [] False True]"
    by code_simp
  have c: "extractFromNpmLock lock_both ?p
       = Inr ([lockRecord ''is'' ''3.3.0'' True False, lockRecord ''synckit'' [] False True]
              @ [lockRecord ''synckit'' ''0.11.8'' False False, lockRecord ''is'' ''2.0.0'' False False])"
    by code_simp
  have d: "(''is'', JObj [(''version'', JStr ''2.0.0'')]) \<in> set (nodes (js_get lock_both ''dependencies''))"
    by code_simp
  have e: "''is'' \<in> TARGETS" by (simp add: TARGETS_def)
  from dependencies_tree_traversed [OF a, of ?p] obtain r1 r2 where
    r: "packagesBranch lock_both ?p [] = Inr r1"
    "extractFromNpmLock lock_both ?p = Inr (r1 @ r2)"
    "mset r2 = mset (node_rows ?p (js_get lock_both ''dependencies''))"
    by blast
  from r(1) b have "r1 = [lockRecord ''is'' ''3.3.0'' True False, lockRecord ''synckit'' [] False True]"
    by simp
  with r(2) c have "r2 = [lockRecord ''synckit'' ''0.11.8'' False False, lockRecord ''is'' ''2.0.0'' False False]"
    by simp
  with r(3) a c d e show ?thesis by simp
qed

section \<open>The sort and the aggregation\<close>

lemma compareRows_le:
  assumes "ck (package a) = ck (package b) \<longrightarrow> package a = package b"
  shows "compareRows ck a b \<le> 0 \<longleftrightarrow> row_key ck a \<le> row_key ck b"
  using assms
  by (auto simp: compareRows_def localeCompare_def row_key_def less_eq_prod_def)

lemma insertRow_insort_key:
  assumes "inj_on ck (package ` (insert x (set ys)))"
  shows "insertRow (compareRows ck) x ys = insort_key (row_key ck) x ys"
  using assms
proof (induction ys)
  case Nil
  show ?case by simp
next
  case (Cons y ys)
  from Cons.prems have "ck (package x) = ck (package y) \<longrightarrow> package x = package y"
    by (auto dest: inj_onD)
  then have c: "compareRows ck x y \<le> 0 \<longleftrightarrow> row_key ck x \<le> row_key ck y"
    by (rule compareRows_le)
  from Cons.prems have "inj_on ck (package ` (insert x (set ys)))"
    by (rule inj_on_subset) auto
  with Cons.IH c show ?case by simp
qed

lemma sortRows_sort_key:
  assumes "inj_on ck (package ` set rows)"
  shows "sortRows ck rows = sort_key (row_key ck) rows"
  using assms
proof (induction rows)
  case Nil
  show ?case by (simp add: sortRows_def sortWith_def)
next
  case (Cons r rows)
  from Cons.prems have i: "inj_on ck (package ` set rows)"
    by (rule inj_on_subset) auto
  have "sortRows ck (r # rows) = insertRow (compareRows ck) r (sortRows ck rows)"
    by (simp add: sortRows_def sortWith_def)
  also have "\<dots> = insertRow (compareRows ck) r (sort_key (row_key ck) rows)"
    using Cons.IH [OF i] by simp
  also have "\<dots> = insort_key (row_key ck) r (sort_key (row_key ck) rows)"
    using Cons.prems by (intro insertRow_insort_key) simp
  finally show ?case by simp
qed

lemma keep_subset: "set (keep kf seen xs) \<subseteq> set xs"
  by (induction xs arbitrary: seen) auto

lemma keep_sorted: "sorted (map f xs) \<Longrightarrow> sorted (map f (keep kf seen xs))"
proof (induction xs arbitrary: seen)
  case Nil
  show ?case by simp
next
  case (Cons x xs)
  with keep_subset [of kf _ xs] show ?case by (auto simp: subset_iff)
qed




lemma dedupeLoop_Inr_keys:
  "dedupeLoop rows seen acc = Inr out \<Longrightarrow> \<forall>r \<in> set rows. rowKey r = Inr (key_of r)"
proof (induction rows arbitrary: seen acc)
  case Nil
  show ?case by simp
next
  case (Cons r rows)
  from Cons.prems obtain k where k: "rowKey r = Inr k"
    by (cases "rowKey r") simp_all
  with Cons.prems have "dedupeLoop rows seen acc = Inr out
      \<or> dedupeLoop rows (insert k seen) (acc @ [r]) = Inr out"
    by (auto split: if_splits)
  with Cons.IH have "\<forall>r \<in> set rows. rowKey r = Inr (key_of r)" by blast
  with k show ?case by (simp add: key_of_def)
qed

lemma dedupeRows_keep:
  "(\<forall>r \<in> set rows. rowKey r = Inr (key_of r)) \<Longrightarrow> dedupeRows rows = Inr (keep key_of {} rows)"
  using dedupeLoop_keep [of rows key_of "{}" "[]"] by (simp add: dedupeRows_def)

lemma dedupeRows_Inr:
  "dedupeRows rows = Inr out \<Longrightarrow>
   out = keep key_of {} rows \<and> (\<forall>r \<in> set rows. rowKey r = Inr (key_of r))"
  using dedupeLoop_Inr_keys [of rows "{}" "[]" out] dedupeRows_keep [of rows]
  by (simp add: dedupeRows_def)



lemma sortRows_props:
  assumes "inj_on ck (package ` set rows)"
  shows "mset (sortRows ck rows) = mset rows"
    and "sorted (map (row_key ck) (sortRows ck rows))"
    and "filter (\<lambda>r. row_key ck r = k) (sortRows ck rows) = filter (\<lambda>r. row_key ck r = k) rows"
    and "sortRows ck (sortRows ck rows) = sortRows ck rows"
proof -
  note s = sortRows_sort_key [OF assms]
  show "mset (sortRows ck rows) = mset rows" by (simp add: s)
  show "sorted (map (row_key ck) (sortRows ck rows))" by (simp add: s)
  show "filter (\<lambda>r. row_key ck r = k) (sortRows ck rows) = filter (\<lambda>r. row_key ck r = k) rows"
    by (simp add: s sort_key_stable)
  have "inj_on ck (package ` set (sort_key (row_key ck) rows))" using assms by simp
  from sortRows_sort_key [OF this] show "sortRows ck (sortRows ck rows) = sortRows ck rows"
    by (simp add: s sort_key_id_if_sorted)
qed

lemma sortRows_perm_keys:
  assumes "inj_on ck (package ` set rows)" "mset rows' = mset rows"
  shows "map (row_key ck) (sortRows ck rows') = map (row_key ck) (sortRows ck rows)"
proof -
  from assms(2) have se: "set rows' = set rows" by (rule mset_eq_setD)
  with assms(1) have i: "inj_on ck (package ` set rows')" by simp
  have a: "sorted (map (row_key ck) (sort_key (row_key ck) rows))" by simp
  have b: "sorted (map (row_key ck) (sort_key (row_key ck) rows'))" by simp
  have "mset (map (row_key ck) (sort_key (row_key ck) rows))
      = mset (map (row_key ck) (sort_key (row_key ck) rows'))"
    using assms(2) by simp
  from properties_for_sort [OF this a]
  have "sort (map (row_key ck) (sort_key (row_key ck) rows'))
      = map (row_key ck) (sort_key (row_key ck) rows)" .
  moreover from b have "sort (map (row_key ck) (sort_key (row_key ck) rows'))
      = map (row_key ck) (sort_key (row_key ck) rows')"
    by (rule sorted_sort_id)
  ultimately show ?thesis
    by (simp add: sortRows_sort_key [OF assms(1)] sortRows_sort_key [OF i])
qed

lemma sortRows_perm_inj:
  assumes "inj_on ck (package ` set rows)" "mset rows' = mset rows"
    "inj_on (row_key ck) (set rows)"
  shows "sortRows ck rows' = sortRows ck rows"
proof -
  from assms(2) have se: "set rows' = set rows" by (rule mset_eq_setD)
  with assms(1) have i: "inj_on ck (package ` set rows')" by simp
  have "sort_key (row_key ck) rows' = sort_key (row_key ck) rows"
    using assms(2,3) se by (intro sort_key_inj_key_eq) simp_all
  then show ?thesis by (simp add: sortRows_sort_key [OF assms(1)] sortRows_sort_key [OF i])
qed

text \<open>
  C2 (as amended). The sort orders the records by package, then by \<open>lockfilePath\<close> on
  package ties, each compared as \<^verbatim>\<open>localeCompare\<close> compares strings, that is by their
  collation keys. Provided the collation gives different keys to the different package
  names of the list: the output is a permutation of the input that is ordered by the
  pair of collation keys of package and \<open>lockfilePath\<close>; the sort is stable, so records
  with the same pair of keys keep their input order; sorting again changes nothing; two
  permutations of the same records give the same sequence of pairs of keys, and the same
  sequence of records when no two different records of the input have the same pair of
  keys. The output of the aggregation is ordered by the same pair of keys.
\<close>

theorem sortRows_sorted_stable:
  assumes "inj_on ck (package ` set rows)"
  shows "mset (sortRows ck rows) = mset rows
     \<and> sorted (map (row_key ck) (sortRows ck rows))
     \<and> (\<forall>a b. row_key ck a \<le> row_key ck b \<longleftrightarrow>
           ck (package a) < ck (package b)
           \<or> ck (package a) = ck (package b) \<and> ck (lockfilePath a) \<le> ck (lockfilePath b))
     \<and> (\<forall>k. filter (\<lambda>r. row_key ck r = k) (sortRows ck rows)
            = filter (\<lambda>r. row_key ck r = k) rows)
     \<and> sortRows ck (sortRows ck rows) = sortRows ck rows
     \<and> (\<forall>rows'. mset rows' = mset rows \<longrightarrow>
           map (row_key ck) (sortRows ck rows') = map (row_key ck) (sortRows ck rows))
     \<and> (\<forall>rows'. mset rows' = mset rows \<and> inj_on (row_key ck) (set rows) \<longrightarrow>
           sortRows ck rows' = sortRows ck rows)
     \<and> (\<forall>out. aggregate ck rows = Inr out \<longrightarrow> sorted (map (row_key ck) out))"
proof -
  have "\<forall>a b. row_key ck a \<le> row_key ck b \<longleftrightarrow>
           ck (package a) < ck (package b)
           \<or> ck (package a) = ck (package b) \<and> ck (lockfilePath a) \<le> ck (lockfilePath b)"
    by (auto simp: row_key_def less_eq_prod_def)
  moreover have "\<forall>out. aggregate ck rows = Inr out \<longrightarrow> sorted (map (row_key ck) out)"
  proof (intro allI impI)
    fix out
    assume "aggregate ck rows = Inr out"
    then have "dedupeRows (sort_key (row_key ck) rows) = Inr out"
      using assms by (simp add: aggregate_def sortRows_sort_key)
    from dedupeRows_Inr [OF this] have "out = keep key_of {} (sort_key (row_key ck) rows)"
      by simp
    then show "sorted (map (row_key ck) out)"
      by (simp add: keep_sorted)
  qed
  ultimately show ?thesis
    using sortRows_props [OF assms] sortRows_perm_keys [OF assms] sortRows_perm_inj [OF assms]
    by blast
qed

theorem sortRows_sorted_stable_witness:
  "inj_on code_units (package ` set [row_synckit, row_is, row_is_b])
   \<and> inj_on (row_key code_units) (set [row_synckit, row_is, row_is_b])
   \<and> mset [row_is_b, row_synckit, row_is] = mset [row_synckit, row_is, row_is_b]
   \<and> sortRows code_units [row_synckit, row_is, row_is_b] = [row_is_b, row_is, row_synckit]
   \<and> sortRows code_units [row_is_b, row_synckit, row_is] = [row_is_b, row_is, row_synckit]
   \<and> sorted (map (row_key code_units) [row_is_b, row_is, row_synckit])
   \<and> aggregate code_units [row_synckit, row_is, row_is_b] = Inr [row_is_b, row_is, row_synckit]"
proof -
  let ?rows = "[row_synckit, row_is, row_is_b]"
  have i: "inj_on code_units (package ` set ?rows)"
    by (simp add: inj_on_def code_units_def)
  have j: "inj_on (row_key code_units) (set ?rows)"
    by (simp add: inj_on_def row_key_def code_units_def row_is_def row_is_b_def row_synckit_def)
  have m: "mset [row_is_b, row_synckit, row_is] = mset ?rows" by simp
  have s: "sortRows code_units ?rows = [row_is_b, row_is, row_synckit]" by code_simp
  have a: "aggregate code_units ?rows = Inr [row_is_b, row_is, row_synckit]" by code_simp
  note t = sortRows_sorted_stable [OF i]
  from t m j have "sortRows code_units [row_is_b, row_synckit, row_is] = sortRows code_units ?rows"
    by blast
  with s have p: "sortRows code_units [row_is_b, row_synckit, row_is]
      = [row_is_b, row_is, row_synckit]"
    by (simp only:)
  from t have "sorted (map (row_key code_units) (sortRows code_units ?rows))" by blast
  with s have q: "sorted (map (row_key code_units) [row_is_b, row_is, row_synckit])"
    by (simp only:)
  from i j m s p q a show ?thesis by blast
qed

text \<open>
  C2 as stated fails. Two records of the same lock file for the same package tie on
  both keys (whatever the collation), and the sort is stable: the two orders of the
  input give two different outputs, of the sort and of the aggregation.
\<close>

theorem sortRows_permutation_counterexample:
  "mset [row_is, row_is_old] = mset [row_is_old, row_is]
   \<and> sortRows code_units [row_is, row_is_old] = [row_is, row_is_old]
   \<and> sortRows code_units [row_is_old, row_is] = [row_is_old, row_is]
   \<and> aggregate code_units [row_is, row_is_old] = Inr [row_is, row_is_old]
   \<and> aggregate code_units [row_is_old, row_is] = Inr [row_is_old, row_is]
   \<and> [row_is, row_is_old] \<noteq> [row_is_old, row_is]"
proof -
  have 1: "mset [row_is, row_is_old] = mset [row_is_old, row_is]" by simp
  have 2: "sortRows code_units [row_is, row_is_old] = [row_is, row_is_old]" by code_simp
  have 3: "sortRows code_units [row_is_old, row_is] = [row_is_old, row_is]" by code_simp
  have 4: "aggregate code_units [row_is, row_is_old] = Inr [row_is, row_is_old]" by code_simp
  have 5: "aggregate code_units [row_is_old, row_is] = Inr [row_is_old, row_is]" by code_simp
  have 6: "[row_is, row_is_old] \<noteq> [row_is_old, row_is]"
    by (simp add: row_is_def row_is_old_def)
  from 1 2 3 4 5 6 show ?thesis by blast
qed




text \<open>
  The order of the sort is that of the collation keys: under the collation that
  ignores U+0001 a path that is smaller by its code units comes second.
\<close>

lemma sortRows_collation_order:
  "''/a'' @ [CHR 0x01] @ ''c'' < ''/ab''
   \<and> sortRows ignoring_soh [recordAt ''is'' (''/a'' @ [CHR 0x01] @ ''c''), recordAt ''is'' ''/ab'']
       = [recordAt ''is'' ''/ab'', recordAt ''is'' (''/a'' @ [CHR 0x01] @ ''c'')]"
  by code_simp

end
